theory Spec2Isabelle
  imports Main "HOL-Library.Word"
begin

unbundle bit_operations_syntax

section \<open>The Swift lexer (lib/Parse/Lexer.cpp)\<close>

subsection \<open>Buffer, tokens, lexer state\<close>

text \<open>
  The source buffer is an \<open>llvm::MemoryBuffer\<close>: the bytes \<open>buf\<close> between
  \<open>getBufferStart()\<close> (offset \<open>0\<close>) and \<open>getBufferEnd()\<close> (offset \<open>length buf\<close>),
  followed by the nul terminator every \<open>MemoryBuffer\<close> carries at \<open>getBufferEnd()\<close>.
  Pointers into the buffer are offsets from its start. Reading the terminator is allowed;
  reading any byte after it is outside the buffer and is a fault of the model.
\<close>

datatype fault = AssertionFailed | ReadOutOfBounds

definition getBufferEnd :: "string \<Rightarrow> nat" where
  "getBufferEnd buf = length buf"

definition deref :: "string \<Rightarrow> nat \<Rightarrow> char option" where
  "deref buf p =
     (if p < getBufferEnd buf then Some (buf ! p)
      else if p = getBufferEnd buf then Some (CHR 0x00)
      else None)"

text \<open>
  Modelled from the spec: the enumeration \<open>tok::TokenKind\<close> is declared in a header that
  is not part of the sources at hand; it is taken as the closed set of distinct tags the
  lexer uses (one constructor \<open>tok_x\<close> per enumerator \<open>tok::x\<close>).
\<close>

datatype TokenKind =
    tok_unknown | tok_eof
  | tok_identifier | tok_dollarident | tok_numeric_constant
  | tok_kw___builtin_int32_type | tok_kw_oneof | tok_kw_struct
  | tok_kw_var | tok_kw_func | tok_kw_typealias
  | tok_l_paren | tok_r_paren | tok_l_brace | tok_r_brace
  | tok_l_square | tok_r_square
  | tok_period | tok_comma | tok_semi | tok_colon | tok_coloncolon
  | tok_equal | tok_arrow

text \<open>
  A token holds its kind and its text, an \<open>llvm::StringRef\<close>: the offset of the first
  character and a length.
\<close>

record Token =
  Kind :: TokenKind
  TextStart :: nat
  TextLen :: nat

text \<open>
  The lexer's mutable state: the cursor \<open>CurPtr\<close>, and the messages handed to
  \<open>SourceMgr.PrintMessage\<close> so far, each as (location, message, type). The buffer is set
  by the constructor and never changes; the routines take its contents as the argument
  \<open>buf\<close>. The constructor leaves the cursor at the start of the buffer (\<open>Lexer_init\<close>).
\<close>

record Lexer =
  CurPtr :: nat
  Diags :: "(nat \<times> string \<times> string) list"

definition Lexer_init :: Lexer where
  "Lexer_init = \<lparr>CurPtr = 0, Diags = []\<rparr>"

definition Warning :: "nat \<Rightarrow> string \<Rightarrow> Lexer \<Rightarrow> Lexer" where
  "Warning Loc Message L = L\<lparr>Diags := Diags L @ [(Loc, Message, ''warning'')]\<rparr>"

definition Error :: "nat \<Rightarrow> string \<Rightarrow> Lexer \<Rightarrow> Lexer" where
  "Error Loc Message L = L\<lparr>Diags := Diags L @ [(Loc, Message, ''error'')]\<rparr>"

definition FormToken :: "TokenKind \<Rightarrow> nat \<Rightarrow> Lexer \<Rightarrow> Token" where
  "FormToken K TokStart L = \<lparr>Kind = K, TextStart = TokStart, TextLen = CurPtr L - TokStart\<rparr>"

text \<open>The characters a token's text refers to, read from the buffer and its terminator
  (the text of the end-of-input token is the terminator).\<close>

definition getText :: "string \<Rightarrow> Token \<Rightarrow> string" where
  "getText buf T = take (TextLen T) (drop (TextStart T) (buf @ [CHR 0x00]))"

subsection \<open>Character classes of the C library (in the "C" locale)\<close>

definition isdigit :: "char \<Rightarrow> bool" where
  "isdigit c = (c \<in> set ''0123456789'')"

definition isalpha :: "char \<Rightarrow> bool" where
  "isalpha c = (c \<in> set ''ABCDEFGHIJKLMNOPQRSTUVWXYZabcdefghijklmnopqrstuvwxyz'')"

definition isalnum :: "char \<Rightarrow> bool" where
  "isalnum c = (isalpha c \<or> isdigit c)"

subsection \<open>Lexer subroutines\<close>

text \<open>
  Each routine returns the new lexer state (and the token it formed), or a fault: an
  \<open>assert\<close> of the source that does not hold, or a read outside the buffer and its
  terminator. A read of \<open>CurPtr[-1]\<close> or \<open>TokStart = CurPtr-1\<close> with the cursor at offset
  \<open>0\<close> is a read before the buffer.
\<close>

text \<open>\<open>SkipSlashSlashComment\<close>: the \<open>while (1)\<close> loop, then the routine with its assertion.\<close>

function SkipSlashSlashComment_loop :: "string \<Rightarrow> Lexer \<Rightarrow> fault + Lexer" where
  "SkipSlashSlashComment_loop buf L =
     (case deref buf (CurPtr L) of
        None \<Rightarrow> Inl ReadOutOfBounds
      | Some c \<Rightarrow>
          let L1 = L\<lparr>CurPtr := CurPtr L + 1\<rparr> in
          if c = CHR 0x0A \<or> c = CHR 0x0D then Inr L1
          else if c = CHR 0x00 then
            (if CurPtr L1 - 1 \<noteq> getBufferEnd buf then
               SkipSlashSlashComment_loop buf
                 (Warning (CurPtr L1 - 1) ''nul character embedded in middle of file'' L1)
             else
               let L2 = L1\<lparr>CurPtr := CurPtr L1 - 1\<rparr> in
               Inr (Warning (CurPtr L2 - 1) ''no newline at end of // comment'' L2))
          else SkipSlashSlashComment_loop buf L1)"
  by pat_completeness auto
termination
  by (relation "measure (\<lambda>(buf, L). Suc (length buf) - CurPtr L)")
     (auto simp: deref_def getBufferEnd_def Warning_def split: if_splits)

declare SkipSlashSlashComment_loop.simps [simp del]

definition SkipSlashSlashComment :: "string \<Rightarrow> Lexer \<Rightarrow> fault + Lexer" where
  "SkipSlashSlashComment buf L =
     (if CurPtr L = 0 then Inl ReadOutOfBounds
      else
        (case (deref buf (CurPtr L), deref buf (CurPtr L - 1)) of
           (Some c0, Some c1) \<Rightarrow>
             if c0 = CHR ''/'' \<and> c1 = CHR ''/'' then SkipSlashSlashComment_loop buf L
             else Inl AssertionFailed
         | _ \<Rightarrow> Inl ReadOutOfBounds))"

text \<open>The loop \<open>while (isalnum(*CurPtr) || *CurPtr == '_' || *CurPtr == '$') ++CurPtr;\<close>
  shared by \<open>LexIdentifier\<close> and \<open>LexDollarIdent\<close>.\<close>

function LexIdentifier_loop :: "string \<Rightarrow> Lexer \<Rightarrow> fault + Lexer" where
  "LexIdentifier_loop buf L =
     (case deref buf (CurPtr L) of
        None \<Rightarrow> Inl ReadOutOfBounds
      | Some c \<Rightarrow>
          if isalnum c \<or> c = CHR ''_'' \<or> c = CHR ''$''
          then LexIdentifier_loop buf (L\<lparr>CurPtr := CurPtr L + 1\<rparr>)
          else Inr L)"
  by pat_completeness auto
termination
  by (relation "measure (\<lambda>(buf, L). Suc (length buf) - CurPtr L)")
     (auto simp: deref_def getBufferEnd_def isalnum_def isalpha_def isdigit_def split: if_splits)

declare LexIdentifier_loop.simps [simp del]

text \<open>The \<open>llvm::StringSwitch\<close> of \<open>LexIdentifier\<close>.\<close>

definition StringSwitch_keyword :: "string \<Rightarrow> TokenKind" where
  "StringSwitch_keyword s =
     (if s = ''__builtin_int32_type'' then tok_kw___builtin_int32_type
      else if s = ''oneof'' then tok_kw_oneof
      else if s = ''struct'' then tok_kw_struct
      else if s = ''var'' then tok_kw_var
      else if s = ''func'' then tok_kw_func
      else if s = ''typealias'' then tok_kw_typealias
      else tok_identifier)"

definition LexIdentifier :: "string \<Rightarrow> Lexer \<Rightarrow> fault + (Token \<times> Lexer)" where
  "LexIdentifier buf L =
     (if CurPtr L = 0 then Inl ReadOutOfBounds
      else
        let TokStart = CurPtr L - 1 in
        (case deref buf TokStart of
          None \<Rightarrow> Inl ReadOutOfBounds
        | Some c \<Rightarrow>
            if \<not> (isalpha c \<or> c = CHR ''_'') then Inl AssertionFailed
            else
              (case LexIdentifier_loop buf L of
                 Inl e \<Rightarrow> Inl e
               | Inr L1 \<Rightarrow>
                   let K = StringSwitch_keyword (take (CurPtr L1 - TokStart) (drop TokStart buf))
                   in Inr (FormToken K TokStart L1, L1))))"

text \<open>\<open>strspn(CurPtr, PunctuatorCharacters)\<close>: the number of leading characters of the
  C string at \<open>p\<close> that occur in \<open>accept\<close>; the scan stops at the first other character,
  the terminating nul included.\<close>

function strspn :: "string \<Rightarrow> nat \<Rightarrow> string \<Rightarrow> fault + nat" where
  "strspn buf p accept =
     (case deref buf p of
        None \<Rightarrow> Inl ReadOutOfBounds
      | Some c \<Rightarrow>
          if c \<noteq> CHR 0x00 \<and> c \<in> set accept then
            (case strspn buf (p + 1) accept of Inl e \<Rightarrow> Inl e | Inr n \<Rightarrow> Inr (n + 1))
          else Inr 0)"
  by pat_completeness auto
termination
  by (relation "measure (\<lambda>(buf, p, accept). Suc (length buf) - p)")
     (auto simp: deref_def getBufferEnd_def split: if_splits)

declare strspn.simps [simp del]

definition PunctuatorCharacters :: string where
  "PunctuatorCharacters = ''/=-+*%<>!&|^''"

text \<open>A \<open>char\<close> promoted to \<open>int\<close>, as the operands of \<open>(TokStart[0] << 8) | TokStart[1]\<close>
  are (plain \<open>char\<close> taken as signed; the characters compared are below 128, where
  signedness makes no difference).\<close>

definition char_to_int :: "char \<Rightarrow> int" where
  "char_to_int c = sint (of_char c :: 8 word)"

definition LexPunctuationIdentifier :: "string \<Rightarrow> Lexer \<Rightarrow> fault + (Token \<times> Lexer)" where
  "LexPunctuationIdentifier buf L =
     (if CurPtr L = 0 then Inl ReadOutOfBounds
      else
        let TokStart = CurPtr L - 1 in
        (case strspn buf (CurPtr L) PunctuatorCharacters of
          Inl e \<Rightarrow> Inl e
        | Inr n \<Rightarrow>
            let L1 = L\<lparr>CurPtr := CurPtr L + n\<rparr> in
            if CurPtr L1 - TokStart = 1 then
              (case deref buf TokStart of
                 None \<Rightarrow> Inl ReadOutOfBounds
               | Some c0 \<Rightarrow>
                   if c0 = CHR ''='' then Inr (FormToken tok_equal TokStart L1, L1)
                   else Inr (FormToken tok_identifier TokStart L1, L1))
            else if CurPtr L1 - TokStart = 2 then
              (case (deref buf TokStart, deref buf (TokStart + 1)) of
                 (Some c0, Some c1) \<Rightarrow>
                   if push_bit 8 (char_to_int c0) OR char_to_int c1
                        = push_bit 8 (char_to_int (CHR ''-'')) OR char_to_int (CHR ''>'')
                   then Inr (FormToken tok_arrow TokStart L1, L1)
                   else Inr (FormToken tok_identifier TokStart L1, L1)
               | _ \<Rightarrow> Inl ReadOutOfBounds)
            else Inr (FormToken tok_identifier TokStart L1, L1)))"

definition LexDollarIdent :: "string \<Rightarrow> Lexer \<Rightarrow> fault + (Token \<times> Lexer)" where
  "LexDollarIdent buf L =
     (if CurPtr L = 0 then Inl ReadOutOfBounds
      else
        let TokStart = CurPtr L - 1 in
        (case deref buf TokStart of
          None \<Rightarrow> Inl ReadOutOfBounds
        | Some c \<Rightarrow>
            if c \<noteq> CHR ''$'' then Inl AssertionFailed
            else
              (case LexIdentifier_loop buf L of
                 Inl e \<Rightarrow> Inl e
               | Inr L1 \<Rightarrow> Inr (FormToken tok_dollarident TokStart L1, L1))))"

function LexDigit_loop :: "string \<Rightarrow> Lexer \<Rightarrow> fault + Lexer" where
  "LexDigit_loop buf L =
     (case deref buf (CurPtr L) of
        None \<Rightarrow> Inl ReadOutOfBounds
      | Some c \<Rightarrow>
          if isdigit c then LexDigit_loop buf (L\<lparr>CurPtr := CurPtr L + 1\<rparr>)
          else Inr L)"
  by pat_completeness auto
termination
  by (relation "measure (\<lambda>(buf, L). Suc (length buf) - CurPtr L)")
     (auto simp: deref_def getBufferEnd_def isdigit_def split: if_splits)

declare LexDigit_loop.simps [simp del]

definition LexDigit :: "string \<Rightarrow> Lexer \<Rightarrow> fault + (Token \<times> Lexer)" where
  "LexDigit buf L =
     (if CurPtr L = 0 then Inl ReadOutOfBounds
      else
        let TokStart = CurPtr L - 1 in
        (case deref buf TokStart of
          None \<Rightarrow> Inl ReadOutOfBounds
        | Some c \<Rightarrow>
            if \<not> isdigit c then Inl AssertionFailed
            else
              (case LexDigit_loop buf L of
                 Inl e \<Rightarrow> Inl e
               | Inr L1 \<Rightarrow> Inr (FormToken tok_numeric_constant TokStart L1, L1))))"

subsection \<open>Main lexer loop\<close>

text \<open>\<open>Lex\<close> from the label \<open>Restart\<close> on; \<open>goto Restart\<close> is the recursive call.\<close>

function Lex_Restart :: "string \<Rightarrow> Lexer \<Rightarrow> fault + (Token \<times> Lexer)" where
  "Lex_Restart buf L =
     (let TokStart = CurPtr L in
      (case deref buf (CurPtr L) of
         None \<Rightarrow> Inl ReadOutOfBounds
       | Some c \<Rightarrow>
           let L1 = L\<lparr>CurPtr := CurPtr L + 1\<rparr> in
           if c = CHR '' '' \<or> c = CHR 0x09 \<or> c = CHR 0x0A \<or> c = CHR 0x0D then
             Lex_Restart buf L1
           else if c = CHR 0x00 then
             (if CurPtr L1 - 1 \<noteq> getBufferEnd buf then
                Lex_Restart buf
                  (Warning (CurPtr L1 - 1) ''nul character embedded in middle of file'' L1)
              else Inr (FormToken tok_eof TokStart L1, L1))
           else if c = CHR ''('' then Inr (FormToken tok_l_paren TokStart L1, L1)
           else if c = CHR '')'' then Inr (FormToken tok_r_paren TokStart L1, L1)
           else if c = CHR ''{'' then Inr (FormToken tok_l_brace TokStart L1, L1)
           else if c = CHR ''}'' then Inr (FormToken tok_r_brace TokStart L1, L1)
           else if c = CHR ''['' then Inr (FormToken tok_l_square TokStart L1, L1)
           else if c = CHR '']'' then Inr (FormToken tok_r_square TokStart L1, L1)
           else if c = CHR ''.'' then Inr (FormToken tok_period TokStart L1, L1)
           else if c = CHR '','' then Inr (FormToken tok_comma TokStart L1, L1)
           else if c = CHR '';'' then Inr (FormToken tok_semi TokStart L1, L1)
           else if c = CHR '':'' then
             (case deref buf (CurPtr L1) of
                None \<Rightarrow> Inl ReadOutOfBounds
              | Some d \<Rightarrow>
                  if d \<noteq> CHR '':'' then Inr (FormToken tok_colon TokStart L1, L1)
                  else
                    let L2 = L1\<lparr>CurPtr := CurPtr L1 + 1\<rparr> in
                    Inr (FormToken tok_coloncolon TokStart L2, L2))
           else if c = CHR ''/'' then
             (case deref buf (CurPtr L1) of
                None \<Rightarrow> Inl ReadOutOfBounds
              | Some d \<Rightarrow>
                  if d = CHR ''/'' then
                    (case SkipSlashSlashComment buf L1 of
                       Inl e \<Rightarrow> Inl e
                     | Inr L2 \<Rightarrow> Lex_Restart buf L2)
                  else LexPunctuationIdentifier buf L1)
           else if c \<in> set ''=-+*%<>!&|^'' then LexPunctuationIdentifier buf L1
           else if c \<in> set ''ABCDEFGHIJKLMNOPQRSTUVWXYZabcdefghijklmnopqrstuvwxyz''
                   \<or> c = CHR ''_'' then LexIdentifier buf L1
           else if c = CHR ''$'' then LexDollarIdent buf L1
           else if c \<in> set ''0123456789'' then LexDigit buf L1
           else
             let L2 = Error (CurPtr L1 - 1) ''invalid character in source file'' L1 in
             Inr (FormToken tok_unknown TokStart L2, L2)))"
  by pat_completeness auto

lemma SkipSlashSlashComment_loop_mono:
  "SkipSlashSlashComment_loop buf L = Inr L' \<Longrightarrow> CurPtr L \<le> CurPtr L'"
proof (induction buf L rule: SkipSlashSlashComment_loop.induct)
  case (1 buf L)
  show ?case
    using "1.prems" "1.IH"
    by (subst (asm) SkipSlashSlashComment_loop.simps)
       (fastforce simp: Let_def Warning_def split: option.splits if_splits)
qed

lemma SkipSlashSlashComment_mono:
  "SkipSlashSlashComment buf L = Inr L' \<Longrightarrow> CurPtr L \<le> CurPtr L'"
  by (auto simp: SkipSlashSlashComment_def dest: SkipSlashSlashComment_loop_mono
           split: if_splits option.splits)

termination Lex_Restart
  by (relation "measure (\<lambda>(buf, L). Suc (length buf) - CurPtr L)")
     (auto simp: deref_def getBufferEnd_def Warning_def dest!: SkipSlashSlashComment_mono
           split: if_splits)

declare Lex_Restart.simps [simp del]

text \<open>\<open>Lex\<close>: the assertion on entry (\<open>CurPtr >= getBufferStart()\<close> holds for every
  offset), then the code from \<open>Restart\<close> on.\<close>

definition Lex :: "string \<Rightarrow> Lexer \<Rightarrow> fault + (Token \<times> Lexer)" where
  "Lex buf L =
     (if \<not> (CurPtr L \<le> getBufferEnd buf) then Inl AssertionFailed
      else Lex_Restart buf L)"

subsection \<open>The caller's protocol\<close>

text \<open>
  The caller requests tokens until an end-of-input token is returned. \<open>LexAll n\<close> makes
  at most \<open>n\<close> calls of \<open>Lex\<close> and gives the tokens in order, the end-of-input token
  last; \<open>None\<close> when a call faults or \<open>n\<close> calls did not reach end-of-input.
\<close>

fun LexAll :: "nat \<Rightarrow> string \<Rightarrow> Lexer \<Rightarrow> (Token list \<times> Lexer) option" where
  "LexAll 0 buf L = None"
| "LexAll (Suc n) buf L =
     (case Lex buf L of
        Inl e \<Rightarrow> None
      | Inr (T, L1) \<Rightarrow>
          if Kind T = tok_eof then Some ([T], L1)
          else (case LexAll n buf L1 of
                  None \<Rightarrow> None
                | Some (Ts, L2) \<Rightarrow> Some (T # Ts, L2)))"

section \<open>Vocabulary of the properties\<close>

text \<open>
  Character classes and spans in which the properties below are stated: the continuation
  test of identifiers, the punctuator characters, the characters that do not end a line
  comment, the whitespace of the dispatch switch, and the characters no case label of the
  switch matches.
\<close>

definition identifier_body :: "char \<Rightarrow> bool" where
  "identifier_body c = (isalnum c \<or> c = CHR ''_'' \<or> c = CHR ''$'')"

definition is_punctuator :: "char \<Rightarrow> bool" where
  "is_punctuator c = (c \<in> set PunctuatorCharacters)"

definition not_eol :: "char \<Rightarrow> bool" where
  "not_eol c = (c \<noteq> CHR 0x0A \<and> c \<noteq> CHR 0x0D)"

text \<open>The warnings for the nul characters at the offsets \<open>a \<le> p < b\<close>, in order.\<close>

definition nul_warnings :: "string \<Rightarrow> nat \<Rightarrow> nat \<Rightarrow> (nat \<times> string \<times> string) list" where
  "nul_warnings buf a b =
     map (\<lambda>p. (p, ''nul character embedded in middle of file'', ''warning''))
       (filter (\<lambda>p. buf ! p = CHR 0x00) [a..<b])"

text \<open>The offset of the first newline or carriage return at or after \<open>p\<close>, the length of
  the buffer when there is none.\<close>

definition comment_end :: "string \<Rightarrow> nat \<Rightarrow> nat" where
  "comment_end buf p = p + length (takeWhile not_eol (drop p buf))"

definition is_whitespace :: "char \<Rightarrow> bool" where
  "is_whitespace c = (c = CHR '' '' \<or> c = CHR 0x09 \<or> c = CHR 0x0A \<or> c = CHR 0x0D)"

definition is_invalid :: "char \<Rightarrow> bool" where
  "is_invalid c =
     (\<not> is_whitespace c \<and> c \<noteq> CHR 0x00 \<and> c \<notin> set ''(){}[].,;:''
      \<and> c \<notin> set PunctuatorCharacters \<and> \<not> isalpha c \<and> c \<noteq> CHR ''_''
      \<and> c \<noteq> CHR ''$'' \<and> \<not> isdigit c)"

text \<open>The kinds of the one-character tokens and of the operator runs, as functions of the
  token text.\<close>

definition single_kind :: "char \<Rightarrow> TokenKind" where
  "single_kind c =
     (if c = CHR ''('' then tok_l_paren else if c = CHR '')'' then tok_r_paren
      else if c = CHR ''{'' then tok_l_brace else if c = CHR ''}'' then tok_r_brace
      else if c = CHR ''['' then tok_l_square else if c = CHR '']'' then tok_r_square
      else if c = CHR ''.'' then tok_period else if c = CHR '','' then tok_comma
      else tok_semi)"

definition punctuator_kind :: "string \<Rightarrow> TokenKind" where
  "punctuator_kind s =
     (if s = ''='' then tok_equal else if s = ''->'' then tok_arrow else tok_identifier)"

text \<open>The character at \<open>p\<close> starts a token: it is inside the buffer and is neither
  skipped by the dispatch switch nor the start of a \<open>//\<close> comment.\<close>

definition token_start :: "string \<Rightarrow> nat \<Rightarrow> bool" where
  "token_start buf p =
     (p < length buf \<and> \<not> is_whitespace (buf ! p) \<and> buf ! p \<noteq> CHR 0x00
      \<and> \<not> (buf ! p = CHR ''/'' \<and> deref buf (p + 1) = Some (CHR ''/'')))"

text \<open>The state in which \<open>SkipSlashSlashComment\<close> returns when \<open>Lex\<close>, in state \<open>L\<close>, meets
  a \<open>//\<close> marker at its cursor.\<close>

definition after_comment :: "string \<Rightarrow> Lexer \<Rightarrow> Lexer" where
  "after_comment buf L =
     (let e = comment_end buf (CurPtr L + 1) in
      if e < length buf
      then L\<lparr>CurPtr := e + 1, Diags := Diags L @ nul_warnings buf (CurPtr L + 1) e\<rparr>
      else L\<lparr>CurPtr := length buf,
             Diags := Diags L @ nul_warnings buf (CurPtr L + 1) (length buf)
                      @ [(length buf - 1, ''no newline at end of // comment'', ''warning'')]\<rparr>)"

text \<open>What a call of \<open>Lex\<close> entered with the cursor at \<open>p\<close> returns: a token with a
  non-empty text at or after \<open>p\<close>, the cursor right after it; the end-of-input token is
  the terminator at the end of the buffer, every other token ends inside the buffer.\<close>

definition Lex_result :: "string \<Rightarrow> nat \<Rightarrow> Token \<Rightarrow> Lexer \<Rightarrow> bool" where
  "Lex_result buf p T L' =
     (p \<le> TextStart T \<and> 0 < TextLen T
      \<and> CurPtr L' = TextStart T + TextLen T
      \<and> (Kind T = tok_eof \<longrightarrow> TextStart T = length buf \<and> TextLen T = 1)
      \<and> (Kind T \<noteq> tok_eof \<longrightarrow> CurPtr L' \<le> length buf))"

text \<open>The characters between the cursor \<open>p\<close> at the call and the start of the token it
  returned.\<close>

definition skipped :: "string \<Rightarrow> nat \<Rightarrow> Token \<Rightarrow> string" where
  "skipped buf p T = take (TextStart T - p) (drop p buf)"

text \<open>
  Skipped text: a sequence of whitespace characters, nul characters and \<open>//\<close> comments,
  each comment running to its first newline or carriage return, included. Only text that
  reaches the end of the buffer (\<open>at_end\<close>) may end in a comment without line end.
\<close>

inductive trivia :: "bool \<Rightarrow> string \<Rightarrow> bool" where
  trivia_Nil: "trivia at_end []"
| trivia_space: "is_whitespace c \<or> c = CHR 0x00 \<Longrightarrow> trivia at_end s \<Longrightarrow> trivia at_end (c # s)"
| trivia_comment: "\<forall>c\<in>set body. not_eol c \<Longrightarrow> \<not> not_eol e \<Longrightarrow> trivia at_end s \<Longrightarrow>
     trivia at_end (''//'' @ body @ e # s)"
| trivia_open_comment: "\<forall>c\<in>set body. not_eol c \<Longrightarrow> trivia True (''//'' @ body)"

text \<open>
  The buffer text accounted for by a run of calls that started with the cursor at \<open>p\<close>:
  for each token the characters skipped before it and then its text; for the end-of-input
  token, which is the terminator and not part of the buffer, only the skipped characters.
  \<open>trivia_between\<close> says that every skipped stretch is \<open>trivia\<close>.
\<close>

fun reassemble :: "string \<Rightarrow> nat \<Rightarrow> Token list \<Rightarrow> string" where
  "reassemble buf p [] = []"
| "reassemble buf p (T # Ts) =
     skipped buf p T @
     (if Kind T = tok_eof then []
      else getText buf T @ reassemble buf (TextStart T + TextLen T) Ts)"

fun trivia_between :: "string \<Rightarrow> nat \<Rightarrow> Token list \<Rightarrow> bool" where
  "trivia_between buf p [] = True"
| "trivia_between buf p (T # Ts) =
     (trivia (Kind T = tok_eof) (skipped buf p T)
      \<and> trivia_between buf (TextStart T + TextLen T) Ts)"

text \<open>Every nul character before the cursor (and before the end of the buffer) has its
  warning among the diagnostics.\<close>

definition nul_reported :: "string \<Rightarrow> Lexer \<Rightarrow> bool" where
  "nul_reported buf L =
     (\<forall>p. p < CurPtr L \<and> p < length buf \<and> buf ! p = CHR 0x00 \<longrightarrow>
        (p, ''nul character embedded in middle of file'', ''warning'') \<in> set (Diags L))"

text \<open>The diagnostics of one call of \<open>Lex\<close>: warnings, followed by one error at the token
  when the token is of unknown kind, which is the case exactly when it starts at an
  invalid character and then has length 1.\<close>

definition Lex_diags :: "string \<Rightarrow> Lexer \<Rightarrow> Token \<Rightarrow> Lexer \<Rightarrow> bool" where
  "Lex_diags buf L T L' =
     ((\<exists>ws. Diags L' = Diags L @ ws
            @ (if Kind T = tok_unknown
               then [(TextStart T, ''invalid character in source file'', ''error'')] else [])
          \<and> (\<forall>d\<in>set ws. snd (snd d) = ''warning''))
      \<and> (Kind T = tok_unknown \<longrightarrow> TextLen T = 1)
      \<and> (TextStart T < length buf \<longrightarrow> (Kind T = tok_unknown) = is_invalid (buf ! TextStart T)))"

section \<open>What each routine computes\<close>

lemma getText_inside:
  "TextStart T + TextLen T \<le> length buf \<Longrightarrow>
   getText buf T = take (TextLen T) (drop (TextStart T) buf)"
  by (simp add: getText_def)

lemma deref_inside: "p < length buf \<Longrightarrow> deref buf p = Some (buf ! p)"
  by (simp add: deref_def getBufferEnd_def)

lemma deref_end: "deref buf (length buf) = Some (CHR 0x00)"
  by (simp add: deref_def getBufferEnd_def)

lemma deref_Some_le: "deref buf p = Some c \<Longrightarrow> p \<le> length buf"
  by (simp add: deref_def getBufferEnd_def split: if_splits)

lemma deref_not_nul: "deref buf p = Some c \<Longrightarrow> c \<noteq> CHR 0x00 \<Longrightarrow> p < length buf \<and> buf ! p = c"
  by (simp add: deref_def getBufferEnd_def split: if_splits)

lemma not_identifier_body_nul: "\<not> identifier_body (CHR 0x00)"
  by (simp add: identifier_body_def isalnum_def isalpha_def isdigit_def)

lemma not_isdigit_nul: "\<not> isdigit (CHR 0x00)"
  by (simp add: isdigit_def)

lemma LexIdentifier_loop_eq:
  "CurPtr L \<le> length buf \<Longrightarrow>
   LexIdentifier_loop buf L =
     Inr (L\<lparr>CurPtr := CurPtr L + length (takeWhile identifier_body (drop (CurPtr L) buf))\<rparr>)"
proof (induction "length buf - CurPtr L" arbitrary: L)
  case 0
  then have "CurPtr L = length buf" by simp
  then show ?case
    using not_identifier_body_nul
    by (subst LexIdentifier_loop.simps) (simp add: deref_end identifier_body_def)
next
  case (Suc n)
  then have lt: "CurPtr L < length buf" by simp
  then have d: "drop (CurPtr L) buf = buf ! CurPtr L # drop (Suc (CurPtr L)) buf"
    by (simp add: Cons_nth_drop_Suc)
  show ?case
  proof (cases "identifier_body (buf ! CurPtr L)")
    case True
    have "LexIdentifier_loop buf L = LexIdentifier_loop buf (L\<lparr>CurPtr := CurPtr L + 1\<rparr>)"
      using True lt by (subst LexIdentifier_loop.simps) (simp add: deref_inside identifier_body_def)
    also have "\<dots> = Inr (L\<lparr>CurPtr := CurPtr L + 1 + length (takeWhile identifier_body (drop (CurPtr L + 1) buf))\<rparr>)"
      using Suc.hyps(1)[of "L\<lparr>CurPtr := CurPtr L + 1\<rparr>"] Suc.hyps(2) lt by simp
    finally show ?thesis using True d by simp
  next
    case False
    then show ?thesis
      using lt d by (subst LexIdentifier_loop.simps) (simp add: deref_inside identifier_body_def)
  qed
qed

lemma LexDigit_loop_eq:
  "CurPtr L \<le> length buf \<Longrightarrow>
   LexDigit_loop buf L =
     Inr (L\<lparr>CurPtr := CurPtr L + length (takeWhile isdigit (drop (CurPtr L) buf))\<rparr>)"
proof (induction "length buf - CurPtr L" arbitrary: L)
  case 0
  then have "CurPtr L = length buf" by simp
  then show ?case
    using not_isdigit_nul
    by (subst LexDigit_loop.simps) (simp add: deref_end)
next
  case (Suc n)
  then have lt: "CurPtr L < length buf" by simp
  then have d: "drop (CurPtr L) buf = buf ! CurPtr L # drop (Suc (CurPtr L)) buf"
    by (simp add: Cons_nth_drop_Suc)
  show ?case
  proof (cases "isdigit (buf ! CurPtr L)")
    case True
    have "LexDigit_loop buf L = LexDigit_loop buf (L\<lparr>CurPtr := CurPtr L + 1\<rparr>)"
      using True lt by (subst LexDigit_loop.simps) (simp add: deref_inside)
    also have "\<dots> = Inr (L\<lparr>CurPtr := CurPtr L + 1 + length (takeWhile isdigit (drop (CurPtr L + 1) buf))\<rparr>)"
      using Suc.hyps(1)[of "L\<lparr>CurPtr := CurPtr L + 1\<rparr>"] Suc.hyps(2) lt by simp
    finally show ?thesis using True d by simp
  next
    case False
    then show ?thesis
      using lt d by (subst LexDigit_loop.simps) (simp add: deref_inside)
  qed
qed

lemma strspn_eq:
  "p \<le> length buf \<Longrightarrow>
   strspn buf p accept =
     Inr (length (takeWhile (\<lambda>c. c \<noteq> CHR 0x00 \<and> c \<in> set accept) (drop p buf)))"
proof (induction "length buf - p" arbitrary: p)
  case 0
  then have "p = length buf" by simp
  then show ?case
    by (subst strspn.simps) (simp add: deref_end)
next
  case (Suc n)
  then have lt: "p < length buf" by simp
  then have d: "drop p buf = buf ! p # drop (Suc p) buf"
    by (simp add: Cons_nth_drop_Suc)
  have ih: "strspn buf (p + 1) accept =
     Inr (length (takeWhile (\<lambda>c. c \<noteq> CHR 0x00 \<and> c \<in> set accept) (drop (p + 1) buf)))"
    using Suc.hyps(1)[of "p + 1"] Suc.hyps(2) lt by simp
  show ?case
    using lt d ih by (subst strspn.simps) (simp add: deref_inside)
qed

lemma nul_warnings_empty: "nul_warnings buf a a = []"
  by (simp add: nul_warnings_def)

lemma nul_warnings_step:
  "a < b \<Longrightarrow> nul_warnings buf a b =
     (if buf ! a = CHR 0x00 then [(a, ''nul character embedded in middle of file'', ''warning'')] else [])
     @ nul_warnings buf (Suc a) b"
  by (simp add: nul_warnings_def upt_conv_Cons)

lemma comment_end_le: "p \<le> length buf \<Longrightarrow> comment_end buf p \<le> length buf"
proof -
  assume a: "p \<le> length buf"
  have "length (takeWhile not_eol (drop p buf)) \<le> length (drop p buf)"
    by (rule length_takeWhile_le)
  then show ?thesis using a by (simp add: comment_end_def)
qed

lemma comment_end_end: "comment_end buf (length buf) = length buf"
  by (simp add: comment_end_def)

lemma comment_end_step:
  "p < length buf \<Longrightarrow>
   comment_end buf p = (if not_eol (buf ! p) then comment_end buf (Suc p) else p)"
  by (simp add: comment_end_def Cons_nth_drop_Suc [symmetric])

lemma SkipSlashSlashComment_loop_eq:
  "CurPtr L \<le> length buf \<Longrightarrow>
   SkipSlashSlashComment_loop buf L =
     (if comment_end buf (CurPtr L) < length buf
      then Inr (L\<lparr>CurPtr := comment_end buf (CurPtr L) + 1,
                   Diags := Diags L @ nul_warnings buf (CurPtr L) (comment_end buf (CurPtr L))\<rparr>)
      else Inr (L\<lparr>CurPtr := length buf,
                   Diags := Diags L @ nul_warnings buf (CurPtr L) (length buf)
                            @ [(length buf - 1, ''no newline at end of // comment'', ''warning'')]\<rparr>))"
proof (induction "length buf - CurPtr L" arbitrary: L)
  case 0
  then have e: "CurPtr L = length buf" by simp
  show ?case
    by (subst SkipSlashSlashComment_loop.simps)
       (simp add: e deref_end comment_end_end nul_warnings_empty Warning_def getBufferEnd_def)
next
  case (Suc n)
  then have lt: "CurPtr L < length buf" by simp
  let ?c = "buf ! CurPtr L"
  let ?L1 = "L\<lparr>CurPtr := CurPtr L + 1\<rparr>"
  show ?case
  proof (cases "not_eol ?c")
    case False
    then show ?thesis
      using lt
      by (subst SkipSlashSlashComment_loop.simps)
         (auto simp: deref_inside comment_end_step nul_warnings_empty not_eol_def)
  next
    case True
    note ne = True
    have ce: "comment_end buf (CurPtr L) = comment_end buf (Suc (CurPtr L))"
      using lt ne by (simp add: comment_end_step)
    have ge: "Suc (CurPtr L) \<le> comment_end buf (Suc (CurPtr L))"
      by (simp add: comment_end_def)
    show ?thesis
    proof (cases "?c = CHR 0x00")
      case True
      let ?L2 = "Warning (CurPtr L) ''nul character embedded in middle of file'' ?L1"
      have "SkipSlashSlashComment_loop buf L = SkipSlashSlashComment_loop buf ?L2"
        using lt True
        by (subst SkipSlashSlashComment_loop.simps)
           (simp add: deref_inside getBufferEnd_def)
      moreover have "length buf - CurPtr ?L2 = n" "CurPtr ?L2 \<le> length buf"
        using Suc.hyps(2) lt by (simp_all add: Warning_def)
      ultimately show ?thesis
        using Suc.hyps(1)[of ?L2] lt True ce ge
        by (simp add: Warning_def nul_warnings_step[of "CurPtr L"])
    next
      case False
      have "SkipSlashSlashComment_loop buf L = SkipSlashSlashComment_loop buf ?L1"
        using lt False ne
        by (subst SkipSlashSlashComment_loop.simps)
           (simp add: deref_inside getBufferEnd_def not_eol_def)
      moreover have "length buf - CurPtr ?L1 = n" "CurPtr ?L1 \<le> length buf"
        using Suc.hyps(2) lt by simp_all
      ultimately show ?thesis
        using Suc.hyps(1)[of ?L1] lt False ce ge
        by (simp add: nul_warnings_step[of "CurPtr L"])
    qed
  qed
qed

lemma Lex_Restart_whitespace:
  "CurPtr L < length buf \<Longrightarrow> is_whitespace (buf ! CurPtr L) \<Longrightarrow>
   Lex_Restart buf L = Lex_Restart buf (L\<lparr>CurPtr := CurPtr L + 1\<rparr>)"
  by (subst Lex_Restart.simps) (simp add: deref_inside is_whitespace_def)

lemma Lex_Restart_nul:
  "CurPtr L < length buf \<Longrightarrow> buf ! CurPtr L = CHR 0x00 \<Longrightarrow>
   Lex_Restart buf L =
     Lex_Restart buf (Warning (CurPtr L) ''nul character embedded in middle of file''
                        (L\<lparr>CurPtr := CurPtr L + 1\<rparr>))"
  by (subst Lex_Restart.simps) (simp add: deref_inside getBufferEnd_def)

lemma Lex_Restart_eof:
  "CurPtr L = length buf \<Longrightarrow>
   Lex_Restart buf L =
     Inr (\<lparr>Kind = tok_eof, TextStart = length buf, TextLen = 1\<rparr>,
          L\<lparr>CurPtr := length buf + 1\<rparr>)"
  by (subst Lex_Restart.simps) (simp add: deref_end getBufferEnd_def FormToken_def Let_def)

lemma Lex_Restart_identifier:
  "CurPtr L < length buf \<Longrightarrow> isalpha (buf ! CurPtr L) \<or> buf ! CurPtr L = CHR ''_'' \<Longrightarrow>
   Lex_Restart buf L = LexIdentifier buf (L\<lparr>CurPtr := CurPtr L + 1\<rparr>)"
  by (subst Lex_Restart.simps) (auto simp: deref_inside isalpha_def)

lemma Lex_Restart_dollar:
  "CurPtr L < length buf \<Longrightarrow> buf ! CurPtr L = CHR ''$'' \<Longrightarrow>
   Lex_Restart buf L = LexDollarIdent buf (L\<lparr>CurPtr := CurPtr L + 1\<rparr>)"
  by (subst Lex_Restart.simps) (auto simp: deref_inside)

lemma Lex_Restart_digit:
  "CurPtr L < length buf \<Longrightarrow> isdigit (buf ! CurPtr L) \<Longrightarrow>
   Lex_Restart buf L = LexDigit buf (L\<lparr>CurPtr := CurPtr L + 1\<rparr>)"
  by (subst Lex_Restart.simps) (auto simp: deref_inside isdigit_def)

lemma Lex_Restart_punctuator:
  assumes "CurPtr L < length buf" and "buf ! CurPtr L \<in> set PunctuatorCharacters"
    and "deref buf (CurPtr L + 1) \<noteq> Some (CHR ''/'') \<or> buf ! CurPtr L \<noteq> CHR ''/''"
  shows "Lex_Restart buf L = LexPunctuationIdentifier buf (L\<lparr>CurPtr := CurPtr L + 1\<rparr>)"
proof -
  have d: "deref buf (CurPtr L) = Some (buf ! CurPtr L)"
    using assms(1) by (rule deref_inside)
  have "\<exists>d1. deref buf (CurPtr L + 1) = Some d1"
    using assms(1) by (simp add: deref_def getBufferEnd_def)
  then obtain d1 where d1: "deref buf (CurPtr L + 1) = Some d1" ..
  from assms(2) have "buf ! CurPtr L = CHR ''/'' \<or> buf ! CurPtr L = CHR ''='' \<or> buf ! CurPtr L = CHR ''-''
     \<or> buf ! CurPtr L = CHR ''+'' \<or> buf ! CurPtr L = CHR ''*'' \<or> buf ! CurPtr L = CHR ''%''
     \<or> buf ! CurPtr L = CHR ''<'' \<or> buf ! CurPtr L = CHR ''>'' \<or> buf ! CurPtr L = CHR ''!''
     \<or> buf ! CurPtr L = CHR ''&'' \<or> buf ! CurPtr L = CHR ''|'' \<or> buf ! CurPtr L = CHR ''^''"
    by (simp add: PunctuatorCharacters_def)
  then show ?thesis
    using assms(3) d1
    by (elim disjE; subst Lex_Restart.simps; simp add: d Let_def)
qed

lemma Lex_Restart_comment:
  "CurPtr L < length buf \<Longrightarrow> buf ! CurPtr L = CHR ''/'' \<Longrightarrow>
   deref buf (CurPtr L + 1) = Some (CHR ''/'') \<Longrightarrow>
   Lex_Restart buf L =
     (case SkipSlashSlashComment buf (L\<lparr>CurPtr := CurPtr L + 1\<rparr>) of
        Inl e \<Rightarrow> Inl e
      | Inr L2 \<Rightarrow> Lex_Restart buf L2)"
  by (subst Lex_Restart.simps) (simp add: deref_inside)

lemma Lex_Restart_invalid:
  "CurPtr L < length buf \<Longrightarrow> is_invalid (buf ! CurPtr L) \<Longrightarrow>
   Lex_Restart buf L =
     Inr (\<lparr>Kind = tok_unknown, TextStart = CurPtr L, TextLen = 1\<rparr>,
          Error (CurPtr L) ''invalid character in source file'' (L\<lparr>CurPtr := CurPtr L + 1\<rparr>))"
  by (subst Lex_Restart.simps)
     (simp add: deref_inside is_invalid_def is_whitespace_def PunctuatorCharacters_def
        isalpha_def isdigit_def FormToken_def Error_def Let_def)

lemma Lex_Restart_single:
  assumes "CurPtr L < length buf" and "buf ! CurPtr L \<in> set ''(){}[].,;''"
  shows "Lex_Restart buf L =
     Inr (\<lparr>Kind = single_kind (buf ! CurPtr L), TextStart = CurPtr L, TextLen = 1\<rparr>,
          L\<lparr>CurPtr := CurPtr L + 1\<rparr>)"
proof -
  have d: "deref buf (CurPtr L) = Some (buf ! CurPtr L)"
    using assms(1) by (rule deref_inside)
  from assms(2) have "buf ! CurPtr L = CHR ''('' \<or> buf ! CurPtr L = CHR '')'' \<or> buf ! CurPtr L = CHR ''{''
     \<or> buf ! CurPtr L = CHR ''}'' \<or> buf ! CurPtr L = CHR ''['' \<or> buf ! CurPtr L = CHR '']''
     \<or> buf ! CurPtr L = CHR ''.'' \<or> buf ! CurPtr L = CHR '','' \<or> buf ! CurPtr L = CHR '';''"
    by simp
  then show ?thesis
    by (elim disjE; subst Lex_Restart.simps; simp add: d FormToken_def single_kind_def Let_def)
qed

lemma Lex_Restart_colon:
  "CurPtr L < length buf \<Longrightarrow> buf ! CurPtr L = CHR '':'' \<Longrightarrow>
   Lex_Restart buf L =
     (if deref buf (CurPtr L + 1) = Some (CHR '':'')
      then Inr (\<lparr>Kind = tok_coloncolon, TextStart = CurPtr L, TextLen = 2\<rparr>,
                L\<lparr>CurPtr := CurPtr L + 2\<rparr>)
      else Inr (\<lparr>Kind = tok_colon, TextStart = CurPtr L, TextLen = 1\<rparr>,
                L\<lparr>CurPtr := CurPtr L + 1\<rparr>))"
  by (subst Lex_Restart.simps)
     (auto simp: deref_inside FormToken_def deref_def getBufferEnd_def Let_def)

lemma dispatch_cases:
  "is_whitespace c \<or> c = CHR 0x00 \<or> c \<in> set ''(){}[].,;'' \<or> c = CHR '':''
   \<or> c \<in> set PunctuatorCharacters \<or> isalpha c \<or> c = CHR ''_'' \<or> c = CHR ''$''
   \<or> isdigit c \<or> is_invalid c"
  unfolding is_invalid_def by auto

lemma char_to_int_range: "- 128 \<le> char_to_int c \<and> char_to_int c < 128"
proof -
  have "- (2 ^ (LENGTH(8) - 1)) \<le> sint (of_char c :: 8 word)"
    by (rule sint_ge)
  moreover have "sint (of_char c :: 8 word) < 2 ^ (LENGTH(8) - 1)"
    by (rule sint_lt)
  ultimately show ?thesis by (simp add: char_to_int_def)
qed

lemma unat_of_char_word: "unat (of_char c :: 8 word) = of_char c"
proof -
  have "(of_char c :: 8 word) = of_nat (of_char c)"
    by (simp add: of_nat_of_char)
  then have "unat (of_char c :: 8 word) = (of_char c :: nat) mod 2 ^ LENGTH(8)"
    by (simp only: unat_of_nat)
  moreover have "(of_char c :: nat) < 256" by (rule nat_of_char_less_256)
  ultimately show ?thesis by simp
qed

lemma char_to_int_inj: "char_to_int a = char_to_int b \<Longrightarrow> a = b"
proof -
  assume "char_to_int a = char_to_int b"
  then have "(of_char a :: 8 word) = of_char b"
    unfolding char_to_int_def by (rule signed_word_eqI)
  then have "unat (of_char a :: 8 word) = unat (of_char b :: 8 word)" by simp
  then have "(of_char a :: nat) = of_char b" by (simp only: unat_of_char_word)
  then have "char_of (of_char a :: nat) = char_of (of_char b :: nat)" by simp
  then show "a = b" by simp
qed

lemma arrow_switch:
  "(push_bit 8 (char_to_int a) OR char_to_int b
      = push_bit 8 (char_to_int (CHR ''-'')) OR char_to_int (CHR ''>''))
   = (a = CHR ''-'' \<and> b = CHR ''>'')"
proof
  assume eq: "push_bit 8 (char_to_int a) OR char_to_int b
      = push_bit 8 (char_to_int (CHR ''-'')) OR char_to_int (CHR ''>'')"
  have m: "char_to_int (CHR ''-'') = 45" and g: "char_to_int (CHR ''>'') = 62"
    by (simp_all add: char_to_int_def)
  have rhs: "push_bit 8 (45::int) OR 62 = 11582" by simp
  from eq have e: "push_bit 8 (char_to_int a) OR char_to_int b = 11582"
    by (simp only: m g rhs)
  have ra: "- 128 \<le> char_to_int a" "char_to_int a < 128"
    and rb: "- 128 \<le> char_to_int b" "char_to_int b < 128"
    using char_to_int_range by auto
  have nonneg: "0 \<le> push_bit 8 (char_to_int a) OR char_to_int b" using e by simp
  then have a0: "0 \<le> char_to_int a" and b0: "0 \<le> char_to_int b"
    by (simp_all add: or_nonnegative_int_iff)
  have tb: "take_bit 8 (char_to_int b) = char_to_int b"
    using b0 rb by (simp add: take_bit_int_eq_self)
  have "take_bit 8 (push_bit 8 (char_to_int a) OR char_to_int b) = char_to_int b"
    by (simp add: take_bit_push_bit tb)
  then have b: "char_to_int b = 62" using e by simp
  have db: "drop_bit 8 (char_to_int b) = 0"
    using b by simp
  have "drop_bit 8 (push_bit 8 (char_to_int a) OR char_to_int b) = char_to_int a"
    by (simp add: db drop_bit_push_bit_int)
  then have a: "char_to_int a = 45" using e by simp
  show "a = CHR ''-'' \<and> b = CHR ''>''"
    using a b m g char_to_int_inj by metis
next
  assume "a = CHR ''-'' \<and> b = CHR ''>''"
  then show "push_bit 8 (char_to_int a) OR char_to_int b
      = push_bit 8 (char_to_int (CHR ''-'')) OR char_to_int (CHR ''>'')" by simp
qed

lemma take_Suc_span:
  "0 < p \<Longrightarrow> p \<le> length buf \<Longrightarrow>
   take (Suc (length (takeWhile P (drop p buf)))) (drop (p - 1) buf)
     = buf ! (p - 1) # takeWhile P (drop p buf)"
proof -
  assume a: "0 < p" "p \<le> length buf"
  then obtain q where q: "p = Suc q" by (cases p) auto
  have "drop q buf = buf ! q # drop (Suc q) buf"
    using a q by (simp add: Cons_nth_drop_Suc)
  then show ?thesis using q by (simp add: takeWhile_eq_take [symmetric])
qed

lemma LexIdentifier_eq:
  assumes "0 < CurPtr L" "CurPtr L \<le> length buf"
    and "isalpha (buf ! (CurPtr L - 1)) \<or> buf ! (CurPtr L - 1) = CHR ''_''"
  shows "LexIdentifier buf L =
     Inr (\<lparr>Kind = StringSwitch_keyword
                    (buf ! (CurPtr L - 1) # takeWhile identifier_body (drop (CurPtr L) buf)),
            TextStart = CurPtr L - 1,
            TextLen = Suc (length (takeWhile identifier_body (drop (CurPtr L) buf)))\<rparr>,
          L\<lparr>CurPtr := CurPtr L + length (takeWhile identifier_body (drop (CurPtr L) buf))\<rparr>)"
proof -
  have d: "deref buf (CurPtr L - 1) = Some (buf ! (CurPtr L - 1))"
    using assms(1,2) by (simp add: deref_inside)
  have s: "Suc (CurPtr L + n) - CurPtr L = Suc n" for n by simp
  show ?thesis
    using assms d take_Suc_span [of "CurPtr L" buf identifier_body]
    by (simp add: LexIdentifier_def LexIdentifier_loop_eq FormToken_def Let_def Suc_diff_le)
qed

lemma LexDollarIdent_eq:
  assumes "0 < CurPtr L" "CurPtr L \<le> length buf"
    and "buf ! (CurPtr L - 1) = CHR ''$''"
  shows "LexDollarIdent buf L =
     Inr (\<lparr>Kind = tok_dollarident,
            TextStart = CurPtr L - 1,
            TextLen = Suc (length (takeWhile identifier_body (drop (CurPtr L) buf)))\<rparr>,
          L\<lparr>CurPtr := CurPtr L + length (takeWhile identifier_body (drop (CurPtr L) buf))\<rparr>)"
proof -
  have d: "deref buf (CurPtr L - 1) = Some (buf ! (CurPtr L - 1))"
    using assms(1,2) by (simp add: deref_inside)
  show ?thesis
    using assms d
    by (simp add: LexDollarIdent_def LexIdentifier_loop_eq FormToken_def Let_def Suc_diff_le)
qed

lemma LexDigit_eq:
  assumes "0 < CurPtr L" "CurPtr L \<le> length buf"
    and "isdigit (buf ! (CurPtr L - 1))"
  shows "LexDigit buf L =
     Inr (\<lparr>Kind = tok_numeric_constant,
            TextStart = CurPtr L - 1,
            TextLen = Suc (length (takeWhile isdigit (drop (CurPtr L) buf)))\<rparr>,
          L\<lparr>CurPtr := CurPtr L + length (takeWhile isdigit (drop (CurPtr L) buf))\<rparr>)"
proof -
  have d: "deref buf (CurPtr L - 1) = Some (buf ! (CurPtr L - 1))"
    using assms(1,2) by (simp add: deref_inside)
  show ?thesis
    using assms d
    by (simp add: LexDigit_def LexDigit_loop_eq FormToken_def Let_def Suc_diff_le)
qed

lemma punctuator_pred: "(\<lambda>c. c \<noteq> CHR 0x00 \<and> c \<in> set PunctuatorCharacters) = is_punctuator"
  by (auto simp: fun_eq_iff is_punctuator_def PunctuatorCharacters_def)

lemma LexPunctuationIdentifier_eq:
  assumes "0 < CurPtr L" "CurPtr L \<le> length buf"
  shows "LexPunctuationIdentifier buf L =
     Inr (\<lparr>Kind = punctuator_kind
                    (buf ! (CurPtr L - 1) # takeWhile is_punctuator (drop (CurPtr L) buf)),
            TextStart = CurPtr L - 1,
            TextLen = Suc (length (takeWhile is_punctuator (drop (CurPtr L) buf)))\<rparr>,
          L\<lparr>CurPtr := CurPtr L + length (takeWhile is_punctuator (drop (CurPtr L) buf))\<rparr>)"
proof -
  let ?run = "takeWhile is_punctuator (drop (CurPtr L) buf)"
  let ?c0 = "buf ! (CurPtr L - 1)"
  have d: "deref buf (CurPtr L - 1) = Some ?c0"
    using assms by (simp add: deref_inside)
  have sp: "strspn buf (CurPtr L) PunctuatorCharacters = Inr (length ?run)"
    using assms(2) by (simp add: strspn_eq punctuator_pred)
  have len: "CurPtr L + length ?run - (CurPtr L - 1) = Suc (length ?run)"
    using assms(1) by simp
  consider (one) "length ?run = 0" | (two) "length ?run = 1" | (more) "1 < length ?run"
    by linarith
  then show ?thesis
  proof cases
    case one
    then have r: "?run = []" by simp
    show ?thesis
      using assms d
      by (simp add: LexPunctuationIdentifier_def sp Let_def FormToken_def r punctuator_kind_def)
  next
    case two
    then obtain c1 where r: "?run = [c1]"
      by (cases ?run) simp_all
    then have ne: "drop (CurPtr L) buf \<noteq> []" by auto
    then have lt: "CurPtr L < length buf" by simp
    have "hd (drop (CurPtr L) buf) = c1"
      using r ne by (cases "drop (CurPtr L) buf") (simp_all split: if_splits)
    then have c1: "buf ! CurPtr L = c1" using lt by (simp add: hd_drop_conv_nth)
    have d1: "deref buf (CurPtr L) = Some c1"
      using lt c1 by (simp add: deref_inside)
    have tok1: "CurPtr L - Suc 0 + 1 = CurPtr L" using assms(1) by simp
    show ?thesis
      using assms d d1 tok1
      by (simp add: LexPunctuationIdentifier_def sp Let_def FormToken_def r
            punctuator_kind_def arrow_switch Suc_diff_le)
  next
    case more
    then have "length (?c0 # ?run) > 2" by simp
    then have k: "punctuator_kind (?c0 # ?run) = tok_identifier"
      by (auto simp: punctuator_kind_def)
    have ne: "?run \<noteq> []" using more by auto
    show ?thesis
      using assms more k ne
      by (simp add: LexPunctuationIdentifier_def sp Let_def FormToken_def Suc_diff_le)
  qed
qed

lemma span_length_le: "p + length (takeWhile P (drop p buf)) \<le> length buf" if "p \<le> length buf"
proof -
  have "length (takeWhile P (drop p buf)) \<le> length (drop p buf)"
    by (rule length_takeWhile_le)
  then show ?thesis using that by simp
qed

lemma span_no_nul:
  assumes "\<not> P (CHR 0x00)"
  shows "CHR 0x00 \<notin> set (takeWhile P xs)"
  using assms by (auto dest: set_takeWhileD)

lemma getText_span:
  assumes "p < length buf" "TextStart T = p" "TextLen T = Suc (length (takeWhile P (drop (Suc p) buf)))"
  shows "getText buf T = buf ! p # takeWhile P (drop (Suc p) buf)"
proof -
  have "TextStart T + TextLen T \<le> length buf"
    using assms span_length_le [of "Suc p" buf P] by simp
  then show ?thesis
    using assms take_Suc_span [of "Suc p" buf P] by (simp add: getText_inside)
qed

lemma not_is_punctuator_nul: "\<not> is_punctuator (CHR 0x00)"
  by (simp add: is_punctuator_def PunctuatorCharacters_def)

lemma Lex_Restart_comment_eq:
  assumes "CurPtr L < length buf" "buf ! CurPtr L = CHR ''/''"
    and "deref buf (CurPtr L + 1) = Some (CHR ''/'')"
  shows "Lex_Restart buf L = Lex_Restart buf (after_comment buf L)"
proof -
  let ?L1 = "L\<lparr>CurPtr := CurPtr L + 1\<rparr>"
  have d0: "deref buf (CurPtr L) = Some (CHR ''/'')"
    using assms(1,2) by (simp add: deref_inside)
  have le: "CurPtr ?L1 \<le> length buf" using assms(1) by simp
  have "SkipSlashSlashComment buf ?L1 = SkipSlashSlashComment_loop buf ?L1"
    using assms(3) d0 by (simp add: SkipSlashSlashComment_def)
  also have "\<dots> = Inr (after_comment buf L)"
    using SkipSlashSlashComment_loop_eq [OF le]
    by (simp add: after_comment_def Let_def)
  finally show ?thesis
    using Lex_Restart_comment [OF assms] by simp
qed

lemma after_comment_CurPtr:
  assumes "CurPtr L < length buf"
  shows "CurPtr L + 1 < CurPtr (after_comment buf L) \<or> CurPtr (after_comment buf L) = length buf"
    and "CurPtr L < CurPtr (after_comment buf L)"
    and "CurPtr (after_comment buf L) \<le> length buf"
proof -
  have "CurPtr L + 1 \<le> comment_end buf (CurPtr L + 1)"
    by (simp add: comment_end_def)
  then show "CurPtr L + 1 < CurPtr (after_comment buf L) \<or> CurPtr (after_comment buf L) = length buf"
    and "CurPtr L < CurPtr (after_comment buf L)"
    and "CurPtr (after_comment buf L) \<le> length buf"
    using assms by (auto simp: after_comment_def Let_def)
qed

lemma Lex_Restart_token:
  assumes "token_start buf (CurPtr L)"
  shows "\<exists>T L'. Lex_Restart buf L = Inr (T, L')
           \<and> TextStart T = CurPtr L \<and> 0 < TextLen T
           \<and> CurPtr L' = CurPtr L + TextLen T \<and> CurPtr L' \<le> length buf
           \<and> Kind T \<noteq> tok_eof
           \<and> Diags L' = Diags L @ (if Kind T = tok_unknown
                 then [(CurPtr L, ''invalid character in source file'', ''error'')] else [])
           \<and> (Kind T = tok_unknown \<longleftrightarrow> is_invalid (buf ! CurPtr L))
           \<and> CHR 0x00 \<notin> set (getText buf T)"
proof -
  let ?p = "CurPtr L"
  let ?c = "buf ! ?p"
  let ?L1 = "L\<lparr>CurPtr := ?p + 1\<rparr>"
  from assms have lt: "?p < length buf" and nws: "\<not> is_whitespace ?c" and nn: "?c \<noteq> CHR 0x00"
    and ncm: "\<not> (?c = CHR ''/'' \<and> deref buf (?p + 1) = Some (CHR ''/''))"
    by (simp_all add: token_start_def)
  have pre: "0 < CurPtr ?L1" "CurPtr ?L1 \<le> length buf" "buf ! (CurPtr ?L1 - 1) = ?c"
    using lt by simp_all
  have one: "getText buf \<lparr>Kind = K, TextStart = ?p, TextLen = 1\<rparr> = [?c]" for K
    using lt by (simp add: getText_inside take_Suc_conv_app_nth Cons_nth_drop_Suc [symmetric])
  consider (single) "?c \<in> set ''(){}[].,;''" | (colon) "?c = CHR '':''"
    | (punct) "?c \<in> set PunctuatorCharacters"
    | (ident) "isalpha ?c \<or> ?c = CHR ''_''" | (dollar) "?c = CHR ''$''"
    | (digit) "isdigit ?c" | (invalid) "is_invalid ?c"
    using dispatch_cases [of ?c] nws nn by blast
  then show ?thesis
  proof cases
    case single
    have k: "single_kind ?c \<noteq> tok_eof" "single_kind ?c \<noteq> tok_unknown"
      by (simp_all add: single_kind_def)
    have ni: "\<not> is_invalid ?c" using single by (auto simp: is_invalid_def)
    show ?thesis
      using Lex_Restart_single [OF lt single] lt k ni nn one by simp
  next
    case colon
    have ni: "\<not> is_invalid ?c" using colon by (simp add: is_invalid_def)
    show ?thesis
    proof (cases "deref buf (?p + 1) = Some (CHR '':'')")
      case True
      then have lt2: "Suc ?p < length buf" and c2: "buf ! Suc ?p = CHR '':''"
        by (simp_all add: deref_def getBufferEnd_def split: if_splits)
      have "getText buf \<lparr>Kind = tok_coloncolon, TextStart = ?p, TextLen = 2\<rparr> = [?c, buf ! Suc ?p]"
        using lt lt2
        by (simp add: getText_inside numeral_2_eq_2 take_Suc_conv_app_nth
              Cons_nth_drop_Suc [symmetric])
      then show ?thesis
        using Lex_Restart_colon [OF lt colon] True lt2 c2 colon ni by simp
    next
      case False
      then show ?thesis
        using Lex_Restart_colon [OF lt colon] lt colon ni one by simp
    qed
  next
    case punct
    let ?run = "takeWhile is_punctuator (drop (Suc ?p) buf)"
    let ?T = "\<lparr>Kind = punctuator_kind (?c # ?run), TextStart = ?p, TextLen = Suc (length ?run)\<rparr>"
    have ni: "\<not> is_invalid ?c" using punct by (simp add: is_invalid_def)
    have eq: "Lex_Restart buf L = Inr (?T, L\<lparr>CurPtr := Suc ?p + length ?run\<rparr>)"
      using Lex_Restart_punctuator [OF lt punct] ncm LexPunctuationIdentifier_eq [OF pre(1,2)] by auto
    have k: "Kind ?T \<noteq> tok_eof" "Kind ?T \<noteq> tok_unknown"
      by (simp_all add: punctuator_kind_def)
    have t: "getText buf ?T = ?c # ?run"
      using lt by (intro getText_span) simp_all
    have nz: "CHR 0x00 \<notin> set (getText buf ?T)"
      unfolding t using nn span_no_nul [of is_punctuator] not_is_punctuator_nul by simp
    have b: "Suc ?p + length ?run \<le> length buf"
      using lt by (intro span_length_le) simp
    show ?thesis
      unfolding eq using k ni nz b by simp
  next
    case ident
    let ?run = "takeWhile identifier_body (drop (Suc ?p) buf)"
    let ?T = "\<lparr>Kind = StringSwitch_keyword (?c # ?run), TextStart = ?p, TextLen = Suc (length ?run)\<rparr>"
    have ni: "\<not> is_invalid ?c" using ident by (auto simp: is_invalid_def)
    have eq: "Lex_Restart buf L = Inr (?T, L\<lparr>CurPtr := Suc ?p + length ?run\<rparr>)"
      using Lex_Restart_identifier [OF lt ident] LexIdentifier_eq [OF pre(1,2)] ident by simp
    have k: "Kind ?T \<noteq> tok_eof" "Kind ?T \<noteq> tok_unknown"
      by (simp_all add: StringSwitch_keyword_def)
    have t: "getText buf ?T = ?c # ?run"
      using lt by (intro getText_span) simp_all
    have nz: "CHR 0x00 \<notin> set (getText buf ?T)"
      unfolding t using nn span_no_nul [of identifier_body] not_identifier_body_nul by simp
    have b: "Suc ?p + length ?run \<le> length buf"
      using lt by (intro span_length_le) simp
    show ?thesis
      unfolding eq using k ni nz b by simp
  next
    case dollar
    let ?run = "takeWhile identifier_body (drop (Suc ?p) buf)"
    let ?T = "\<lparr>Kind = tok_dollarident, TextStart = ?p, TextLen = Suc (length ?run)\<rparr>"
    have ni: "\<not> is_invalid ?c" using dollar by (auto simp: is_invalid_def)
    have eq: "Lex_Restart buf L = Inr (?T, L\<lparr>CurPtr := Suc ?p + length ?run\<rparr>)"
      using Lex_Restart_dollar [OF lt dollar] LexDollarIdent_eq [OF pre(1,2)] dollar by simp
    have t: "getText buf ?T = ?c # ?run"
      using lt by (intro getText_span) simp_all
    have nz: "CHR 0x00 \<notin> set (getText buf ?T)"
      unfolding t using nn span_no_nul [of identifier_body] not_identifier_body_nul by simp
    have b: "Suc ?p + length ?run \<le> length buf"
      using lt by (intro span_length_le) simp
    show ?thesis
      unfolding eq using ni nz b by simp
  next
    case digit
    let ?run = "takeWhile isdigit (drop (Suc ?p) buf)"
    let ?T = "\<lparr>Kind = tok_numeric_constant, TextStart = ?p, TextLen = Suc (length ?run)\<rparr>"
    have ni: "\<not> is_invalid ?c" using digit by (auto simp: is_invalid_def)
    have eq: "Lex_Restart buf L = Inr (?T, L\<lparr>CurPtr := Suc ?p + length ?run\<rparr>)"
      using Lex_Restart_digit [OF lt digit] LexDigit_eq [OF pre(1,2)] digit by simp
    have t: "getText buf ?T = ?c # ?run"
      using lt by (intro getText_span) simp_all
    have nz: "CHR 0x00 \<notin> set (getText buf ?T)"
      unfolding t using nn span_no_nul [of isdigit] not_isdigit_nul by simp
    have b: "Suc ?p + length ?run \<le> length buf"
      using lt by (intro span_length_le) simp
    show ?thesis
      unfolding eq using ni nz b by simp
  next
    case invalid
    show ?thesis
      using Lex_Restart_invalid [OF lt invalid] lt invalid nn one by (simp add: Error_def)
  qed
qed

lemma Lex_Restart_induct [consumes 1, case_names eof whitespace nul comment token]:
  assumes le: "CurPtr L \<le> length buf"
    and eof: "\<And>L. CurPtr L = length buf \<Longrightarrow> P L"
    and whitespace: "\<And>L. CurPtr L < length buf \<Longrightarrow> is_whitespace (buf ! CurPtr L) \<Longrightarrow>
           P (L\<lparr>CurPtr := CurPtr L + 1\<rparr>) \<Longrightarrow> P L"
    and nul: "\<And>L. CurPtr L < length buf \<Longrightarrow> buf ! CurPtr L = CHR 0x00 \<Longrightarrow>
           P (Warning (CurPtr L) ''nul character embedded in middle of file''
                (L\<lparr>CurPtr := CurPtr L + 1\<rparr>)) \<Longrightarrow> P L"
    and comment: "\<And>L. CurPtr L < length buf \<Longrightarrow> buf ! CurPtr L = CHR ''/'' \<Longrightarrow>
           deref buf (CurPtr L + 1) = Some (CHR ''/'') \<Longrightarrow> P (after_comment buf L) \<Longrightarrow> P L"
    and token: "\<And>L. token_start buf (CurPtr L) \<Longrightarrow> P L"
  shows "P L"
  using le
proof (induction "length buf - CurPtr L" arbitrary: L rule: less_induct)
  case less
  show ?case
  proof (cases "CurPtr L = length buf")
    case True
    then show ?thesis by (rule eof)
  next
    case False
    with less.prems have lt: "CurPtr L < length buf" by simp
    consider (w) "is_whitespace (buf ! CurPtr L)" | (n) "buf ! CurPtr L = CHR 0x00"
      | (c) "buf ! CurPtr L = CHR ''/''" "deref buf (CurPtr L + 1) = Some (CHR ''/'')"
      | (t) "token_start buf (CurPtr L)"
      using lt by (auto simp: token_start_def)
    then show ?thesis
    proof cases
      case w
      show ?thesis
        using lt w
      proof (rule whitespace)
        show "P (L\<lparr>CurPtr := CurPtr L + 1\<rparr>)"
          using lt by (intro less.hyps) simp_all
      qed
    next
      case n
      show ?thesis
        using lt n
      proof (rule nul)
        show "P (Warning (CurPtr L) ''nul character embedded in middle of file''
                (L\<lparr>CurPtr := CurPtr L + 1\<rparr>))"
          using lt by (intro less.hyps) (simp_all add: Warning_def)
      qed
    next
      case c
      show ?thesis
        using lt c
      proof (rule comment)
        show "P (after_comment buf L)"
          using lt after_comment_CurPtr(2,3) [OF lt] by (intro less.hyps) simp_all
      qed
    next
      case t
      then show ?thesis by (rule token)
    qed
  qed
qed

lemma Lex_result_mono: "Lex_result buf q T L' \<Longrightarrow> p \<le> q \<Longrightarrow> Lex_result buf p T L'"
  by (auto simp: Lex_result_def)

lemma Lex_Restart_result:
  assumes "CurPtr L \<le> length buf"
  shows "\<exists>T L'. Lex_Restart buf L = Inr (T, L') \<and> Lex_result buf (CurPtr L) T L'"
  using assms
proof (induction rule: Lex_Restart_induct)
  case (eof L)
  then show ?case by (simp add: Lex_Restart_eof Lex_result_def)
next
  case (whitespace L)
  then obtain T L' where r: "Lex_Restart buf (L\<lparr>CurPtr := CurPtr L + 1\<rparr>) = Inr (T, L')"
    "Lex_result buf (CurPtr L + 1) T L'" by auto
  have "Lex_Restart buf L = Inr (T, L')"
    using Lex_Restart_whitespace [OF whitespace(1,2)] r(1) by simp
  moreover have "Lex_result buf (CurPtr L) T L'"
    using r(2) by (rule Lex_result_mono) simp
  ultimately show ?case by blast
next
  case (nul L)
  let ?L1 = "Warning (CurPtr L) ''nul character embedded in middle of file'' (L\<lparr>CurPtr := CurPtr L + 1\<rparr>)"
  have c: "CurPtr ?L1 = CurPtr L + 1" by (simp add: Warning_def)
  from nul(3) obtain T L' where r: "Lex_Restart buf ?L1 = Inr (T, L')"
    "Lex_result buf (CurPtr ?L1) T L'" by blast
  have "Lex_Restart buf L = Inr (T, L')"
    using Lex_Restart_nul [OF nul(1,2)] r(1) by simp
  moreover have "Lex_result buf (CurPtr L) T L'"
    using r(2) by (rule Lex_result_mono) (simp add: Warning_def)
  ultimately show ?case by blast
next
  case (comment L)
  from comment(4) obtain T L' where r: "Lex_Restart buf (after_comment buf L) = Inr (T, L')"
    "Lex_result buf (CurPtr (after_comment buf L)) T L'" by blast
  have "Lex_Restart buf L = Inr (T, L')"
    using Lex_Restart_comment_eq [OF comment(1,2,3)] r(1) by simp
  moreover have "Lex_result buf (CurPtr L) T L'"
    using r(2) after_comment_CurPtr(2) [OF comment(1)] by (intro Lex_result_mono [OF r(2)]) simp
  ultimately show ?case by blast
next
  case (token L)
  from Lex_Restart_token [OF token] obtain T L' where
    r: "Lex_Restart buf L = Inr (T, L')" "TextStart T = CurPtr L" "0 < TextLen T"
       "CurPtr L' = CurPtr L + TextLen T" "CurPtr L' \<le> length buf" "Kind T \<noteq> tok_eof"
    by blast
  have "Lex_result buf (CurPtr L) T L'"
    using r(2-6) by (simp add: Lex_result_def)
  with r(1) show ?case by blast
qed

lemma Lex_eq: "CurPtr L \<le> length buf \<Longrightarrow> Lex buf L = Lex_Restart buf L"
  by (simp add: Lex_def getBufferEnd_def)

lemma Lex_result:
  assumes "CurPtr L \<le> length buf"
  shows "\<exists>T L'. Lex buf L = Inr (T, L') \<and> Lex_result buf (CurPtr L) T L'"
  using Lex_Restart_result [OF assms] Lex_eq [OF assms] by simp

lemma LexAll_reaches_eof:
  assumes "CurPtr L \<le> length buf" "length buf - CurPtr L < n"
  shows "\<exists>Ts L'. LexAll n buf L = Some (Ts, L') \<and> Ts \<noteq> []
           \<and> length Ts \<le> Suc (length buf - CurPtr L)
           \<and> Kind (last Ts) = tok_eof \<and> (\<forall>T\<in>set (butlast Ts). Kind T \<noteq> tok_eof)
           \<and> CurPtr L' = length buf + 1"
  using assms
proof (induction n arbitrary: L)
  case 0
  then show ?case by simp
next
  case (Suc n)
  from Lex_result [OF Suc.prems(1)] obtain T L1 where
    lx: "Lex buf L = Inr (T, L1)" and r: "Lex_result buf (CurPtr L) T L1" by blast
  show ?case
  proof (cases "Kind T = tok_eof")
    case True
    then have "LexAll (Suc n) buf L = Some ([T], L1)" using lx by simp
    moreover have "CurPtr L1 = length buf + 1" using r True by (simp add: Lex_result_def)
    ultimately show ?thesis using True by simp
  next
    case False
    then have b: "CurPtr L1 \<le> length buf" "CurPtr L < CurPtr L1"
      using r by (auto simp: Lex_result_def)
    then have "length buf - CurPtr L1 < n" using Suc.prems by linarith
    from Suc.IH [OF b(1) this] obtain Ts L' where
      ih: "LexAll n buf L1 = Some (Ts, L')" "Ts \<noteq> []"
          "length Ts \<le> Suc (length buf - CurPtr L1)"
          "Kind (last Ts) = tok_eof" "\<forall>T\<in>set (butlast Ts). Kind T \<noteq> tok_eof"
          "CurPtr L' = length buf + 1" by blast
    have "LexAll (Suc n) buf L = Some (T # Ts, L')"
      using lx False ih(1) by simp
    moreover have "length (T # Ts) \<le> Suc (length buf - CurPtr L)"
      using ih(3) b by simp
    ultimately show ?thesis using ih(2,4,5,6) False by auto
  qed
qed

lemma LexAll_reassemble:
  assumes "LexAll n buf L = Some (Ts, L')" "CurPtr L \<le> length buf"
  shows "reassemble buf (CurPtr L) Ts = drop (CurPtr L) buf"
  using assms
proof (induction n arbitrary: L Ts)
  case 0
  then show ?case by simp
next
  case (Suc n)
  from Lex_result [OF Suc.prems(2)] obtain T L1 where
    lx: "Lex buf L = Inr (T, L1)" and r: "Lex_result buf (CurPtr L) T L1" by blast
  show ?case
  proof (cases "Kind T = tok_eof")
    case True
    then have "Ts = [T]" using lx Suc.prems(1) by simp
    moreover have "TextStart T = length buf" using r True by (simp add: Lex_result_def)
    ultimately show ?thesis using True by (simp add: skipped_def)
  next
    case False
    then have b: "CurPtr L1 \<le> length buf" "CurPtr L \<le> TextStart T"
      "CurPtr L1 = TextStart T + TextLen T"
      using r by (auto simp: Lex_result_def)
    from Suc.prems(1) lx False obtain Ts' where
      t: "LexAll n buf L1 = Some (Ts', L')" "Ts = T # Ts'"
      by (auto split: option.splits)
    have ih: "reassemble buf (CurPtr L1) Ts' = drop (CurPtr L1) buf"
      using Suc.IH [OF t(1) b(1)] .
    have "skipped buf (CurPtr L) T @ drop (TextStart T) buf = drop (CurPtr L) buf"
    proof -
      have "drop (TextStart T) buf = drop (TextStart T - CurPtr L) (drop (CurPtr L) buf)"
        using b(2) by simp
      then show ?thesis by (simp only: skipped_def append_take_drop_id)
    qed
    moreover have "getText buf T @ drop (TextStart T + TextLen T) buf = drop (TextStart T) buf"
    proof -
      have "drop (TextStart T + TextLen T) buf = drop (TextLen T) (drop (TextStart T) buf)"
        by (simp add: add.commute)
      moreover have "getText buf T = take (TextLen T) (drop (TextStart T) buf)"
        using b(1,3) by (intro getText_inside) simp
      ultimately show ?thesis by (simp only: append_take_drop_id)
    qed
    ultimately show ?thesis
      using t(2) False ih b(3) by simp
  qed
qed

lemma skipped_Cons:
  "p < length buf \<Longrightarrow> p < TextStart T \<Longrightarrow> skipped buf p T = buf ! p # skipped buf (Suc p) T"
proof -
  assume a: "p < length buf" "p < TextStart T"
  then obtain k where k: "TextStart T - p = Suc k" "TextStart T - Suc p = k"
    by (cases "TextStart T - p") auto
  have "drop p buf = buf ! p # drop (Suc p) buf"
    using a(1) by (simp add: Cons_nth_drop_Suc)
  then show ?thesis by (simp add: skipped_def k)
qed

lemma skipped_split:
  "p \<le> q \<Longrightarrow> q \<le> TextStart T \<Longrightarrow>
   skipped buf p T = take (q - p) (drop p buf) @ skipped buf q T"
proof -
  assume a: "p \<le> q" "q \<le> TextStart T"
  then have "TextStart T - p = (q - p) + (TextStart T - q)" by simp
  then have "take (TextStart T - p) (drop p buf)
      = take (q - p) (drop p buf) @ take (TextStart T - q) (drop (q - p) (drop p buf))"
    by (simp only: take_add)
  then show ?thesis using a(1) by (simp add: skipped_def)
qed

lemma comment_text:
  assumes lt: "CurPtr L < length buf" and c0: "buf ! CurPtr L = CHR ''/''"
    and c1: "deref buf (CurPtr L + 1) = Some (CHR ''/'')"
  shows "\<exists>body. (\<forall>c\<in>set body. not_eol c)
           \<and> (if comment_end buf (CurPtr L + 1) < length buf
               then take (CurPtr (after_comment buf L) - CurPtr L) (drop (CurPtr L) buf)
                      = ''//'' @ body @ [buf ! comment_end buf (CurPtr L + 1)]
                    \<and> \<not> not_eol (buf ! comment_end buf (CurPtr L + 1))
               else drop (CurPtr L) buf = ''//'' @ body)"
proof -
  let ?p = "CurPtr L"
  let ?rest = "drop (Suc ?p) buf"
  let ?tw = "takeWhile not_eol ?rest"
  let ?body = "takeWhile not_eol (drop (Suc (Suc ?p)) buf)"
  from c1 have lt1: "Suc ?p < length buf" and s1: "buf ! Suc ?p = CHR ''/''"
    by (simp_all add: deref_def getBufferEnd_def split: if_splits)
  have d0: "drop ?p buf = CHR ''/'' # ?rest"
    using lt c0 by (simp add: Cons_nth_drop_Suc [symmetric])
  have d1: "?rest = CHR ''/'' # drop (Suc (Suc ?p)) buf"
    using lt1 s1 by (simp add: Cons_nth_drop_Suc [symmetric])
  have tw: "?tw = CHR ''/'' # ?body"
    by (subst d1) (simp add: not_eol_def)
  have e: "comment_end buf (?p + 1) = Suc ?p + length ?tw"
    by (simp add: comment_end_def)
  have body: "\<forall>c\<in>set ?body. not_eol c"
    by (auto dest: set_takeWhileD)
  show ?thesis
  proof (cases "comment_end buf (?p + 1) < length buf")
    case True
    then have l: "length ?tw < length ?rest" using e by simp
    then have ne: "\<not> not_eol (?rest ! length ?tw)"
      by (rule nth_length_takeWhile)
    have nth: "?rest ! length ?tw = buf ! comment_end buf (?p + 1)"
      using True e by (simp add: add.commute)
    have "take (Suc (length ?tw)) ?rest = ?tw @ [?rest ! length ?tw]"
      using l by (simp add: take_Suc_conv_app_nth takeWhile_eq_take [symmetric])
    then have "take (Suc (Suc (length ?tw))) (drop ?p buf) = ''//'' @ ?body @ [?rest ! length ?tw]"
      by (simp add: d0 tw)
    moreover have "CurPtr (after_comment buf L) - ?p = Suc (Suc (length ?tw))"
      using True e by (simp add: after_comment_def Let_def)
    ultimately show ?thesis
      using True body ne nth by (intro exI [of _ ?body]) simp
  next
    case False
    then have "length ?rest \<le> length ?tw" using e lt1 by simp
    then have "length ?tw = length ?rest"
      using length_takeWhile_le [of not_eol ?rest] by simp
    then have "?tw = ?rest"
      using takeWhile_eq_take [of not_eol ?rest] by simp
    then have "drop ?p buf = ''//'' @ ?body"
      using d0 tw by simp
    then show ?thesis
      using False body by (intro exI [of _ ?body]) simp
  qed
qed

lemma Lex_Restart_trivia:
  assumes "CurPtr L \<le> length buf"
  shows "Lex_Restart buf L = Inr (T, L') \<longrightarrow> trivia (Kind T = tok_eof) (skipped buf (CurPtr L) T)"
  using assms
proof (induction rule: Lex_Restart_induct)
  case (eof L)
  then show ?case
    by (auto simp: Lex_Restart_eof skipped_def intro: trivia_Nil)
next
  case (whitespace L)
  show ?case
  proof
    assume r: "Lex_Restart buf L = Inr (T, L')"
    then have r1: "Lex_Restart buf (L\<lparr>CurPtr := CurPtr L + 1\<rparr>) = Inr (T, L')"
      using Lex_Restart_whitespace [OF whitespace(1,2)] by simp
    have "CurPtr (L\<lparr>CurPtr := CurPtr L + 1\<rparr>) \<le> length buf" using whitespace(1) by simp
    from Lex_Restart_result [OF this] r1 have "CurPtr L < TextStart T"
      by (auto simp: Lex_result_def)
    then have "skipped buf (CurPtr L) T = buf ! CurPtr L # skipped buf (Suc (CurPtr L)) T"
      using whitespace(1) by (intro skipped_Cons)
    moreover have "trivia (Kind T = tok_eof) (skipped buf (Suc (CurPtr L)) T)"
      using whitespace(3) r1 by simp
    ultimately show "trivia (Kind T = tok_eof) (skipped buf (CurPtr L) T)"
      using whitespace(2) by (simp add: trivia_space)
  qed
next
  case (nul L)
  let ?L1 = "Warning (CurPtr L) ''nul character embedded in middle of file'' (L\<lparr>CurPtr := CurPtr L + 1\<rparr>)"
  show ?case
  proof
    assume r: "Lex_Restart buf L = Inr (T, L')"
    then have r1: "Lex_Restart buf ?L1 = Inr (T, L')"
      using Lex_Restart_nul [OF nul(1,2)] by simp
    have c: "CurPtr ?L1 = Suc (CurPtr L)" by (simp add: Warning_def)
    then have "CurPtr ?L1 \<le> length buf" using nul(1) by simp
    from Lex_Restart_result [OF this] r1 c have "CurPtr L < TextStart T"
      by (auto simp: Lex_result_def)
    then have "skipped buf (CurPtr L) T = buf ! CurPtr L # skipped buf (Suc (CurPtr L)) T"
      using nul(1) by (intro skipped_Cons)
    moreover have "trivia (Kind T = tok_eof) (skipped buf (Suc (CurPtr L)) T)"
      using nul(3) r1 c by simp
    ultimately show "trivia (Kind T = tok_eof) (skipped buf (CurPtr L) T)"
      using nul(2) by (simp add: trivia_space)
  qed
next
  case (comment L)
  let ?L2 = "after_comment buf L"
  let ?e = "comment_end buf (CurPtr L + 1)"
  show ?case
  proof
    assume r: "Lex_Restart buf L = Inr (T, L')"
    then have r2: "Lex_Restart buf ?L2 = Inr (T, L')"
      using Lex_Restart_comment_eq [OF comment(1,2,3)] by simp
    have le2: "CurPtr ?L2 \<le> length buf" "CurPtr L < CurPtr ?L2"
      using after_comment_CurPtr(2,3) [OF comment(1)] by simp_all
    from Lex_Restart_result [OF le2(1)] r2 have ts: "CurPtr ?L2 \<le> TextStart T"
      by (auto simp: Lex_result_def)
    have ih: "trivia (Kind T = tok_eof) (skipped buf (CurPtr ?L2) T)"
      using comment(4) r2 by simp
    have sp: "skipped buf (CurPtr L) T
        = take (CurPtr ?L2 - CurPtr L) (drop (CurPtr L) buf) @ skipped buf (CurPtr ?L2) T"
      using le2(2) ts by (intro skipped_split) simp_all
    from comment_text [OF comment(1,2,3)] obtain body where
      body: "\<forall>c\<in>set body. not_eol c"
      and tx: "if ?e < length buf
               then take (CurPtr ?L2 - CurPtr L) (drop (CurPtr L) buf) = ''//'' @ body @ [buf ! ?e]
                    \<and> \<not> not_eol (buf ! ?e)
               else drop (CurPtr L) buf = ''//'' @ body"
      by blast
    show "trivia (Kind T = tok_eof) (skipped buf (CurPtr L) T)"
    proof (cases "?e < length buf")
      case True
      with tx have "skipped buf (CurPtr L) T = ''//'' @ body @ buf ! ?e # skipped buf (CurPtr ?L2) T"
        and "\<not> not_eol (buf ! ?e)"
        using sp by simp_all
      then show ?thesis
        using trivia_comment [OF body _ ih] by simp
    next
      case False
      then have c2: "CurPtr ?L2 = length buf" by (simp add: after_comment_def Let_def)
      then have "Lex_Restart buf ?L2 =
          Inr (\<lparr>Kind = tok_eof, TextStart = length buf, TextLen = 1\<rparr>, ?L2\<lparr>CurPtr := length buf + 1\<rparr>)"
        by (rule Lex_Restart_eof)
      with r2 have T: "Kind T = tok_eof" "TextStart T = length buf" by auto
      have "skipped buf (CurPtr L) T = drop (CurPtr L) buf"
        using T(2) by (simp add: skipped_def)
      also have "\<dots> = ''//'' @ body" using tx False by simp
      finally show ?thesis
        using trivia_open_comment [OF body] T(1) by simp
    qed
  qed
next
  case (token L)
  from Lex_Restart_token [OF token] show ?case
    by (auto simp: skipped_def intro: trivia_Nil)
qed

lemma LexAll_trivia_between:
  assumes "LexAll n buf L = Some (Ts, L')" "CurPtr L \<le> length buf"
  shows "trivia_between buf (CurPtr L) Ts"
  using assms
proof (induction n arbitrary: L Ts)
  case 0
  then show ?case by simp
next
  case (Suc n)
  from Lex_result [OF Suc.prems(2)] obtain T L1 where
    lx: "Lex buf L = Inr (T, L1)" and r: "Lex_result buf (CurPtr L) T L1" by blast
  have tr: "trivia (Kind T = tok_eof) (skipped buf (CurPtr L) T)"
    using Lex_Restart_trivia [OF Suc.prems(2)] lx Lex_eq [OF Suc.prems(2)] by simp
  show ?case
  proof (cases "Kind T = tok_eof")
    case True
    then have "Ts = [T]" using lx Suc.prems(1) by simp
    then show ?thesis using tr by simp
  next
    case False
    then have b: "CurPtr L1 \<le> length buf" "CurPtr L1 = TextStart T + TextLen T"
      using r by (auto simp: Lex_result_def)
    from Suc.prems(1) lx False obtain Ts' where
      t: "LexAll n buf L1 = Some (Ts', L')" "Ts = T # Ts'"
      by (auto split: option.splits)
    show ?thesis
      using Suc.IH [OF t(1) b(1)] tr t(2) b(2) by simp
  qed
qed

lemma span_maximal:
  assumes "p + length (takeWhile P (drop p buf)) < length buf"
  shows "\<not> P (buf ! (p + length (takeWhile P (drop p buf))))"
proof -
  let ?xs = "drop p buf"
  have "length (takeWhile P ?xs) < length ?xs" using assms by simp
  then have "\<not> P (?xs ! length (takeWhile P ?xs))" by (rule nth_length_takeWhile)
  moreover have "?xs ! length (takeWhile P ?xs) = buf ! (p + length (takeWhile P ?xs))"
    using assms by simp
  ultimately show ?thesis by simp
qed

lemma span_all: "\<forall>c\<in>set (takeWhile P xs). P c"
  by (auto dest: set_takeWhileD)

lemma slash_slash_iff:
  assumes "p < length buf"
  shows "(buf ! p = CHR ''/'' \<and> deref buf (p + 1) = Some (CHR ''/'')) = (take 2 (drop p buf) = ''//'')"
proof (cases "Suc p < length buf")
  case True
  then have "take 2 (drop p buf) = [buf ! p, buf ! Suc p]"
    using assms
    by (simp add: numeral_2_eq_2 take_Suc_conv_app_nth Cons_nth_drop_Suc [symmetric])
  then show ?thesis using True by (auto simp: deref_def getBufferEnd_def)
next
  case False
  then have "length (take 2 (drop p buf)) \<noteq> length ''//''" using assms by simp
  then have "take 2 (drop p buf) \<noteq> ''//''" by metis
  moreover have "deref buf (p + 1) \<noteq> Some (CHR ''/'')"
    using False by (simp add: deref_def getBufferEnd_def)
  ultimately show ?thesis by simp
qed

lemma Lex_identifier_token:
  assumes lt: "CurPtr L < length buf"
    and c: "isalpha (buf ! CurPtr L) \<or> buf ! CurPtr L = CHR ''_''"
  shows "\<exists>T L'. Lex buf L = Inr (T, L') \<and> TextStart T = CurPtr L
           \<and> getText buf T = buf ! CurPtr L # takeWhile identifier_body (drop (CurPtr L + 1) buf)
           \<and> CurPtr L' = TextStart T + TextLen T \<and> Diags L' = Diags L
           \<and> (CurPtr L' < length buf \<longrightarrow> \<not> identifier_body (buf ! CurPtr L'))
           \<and> Kind T = StringSwitch_keyword (getText buf T)"
proof -
  let ?p = "CurPtr L"
  let ?L1 = "L\<lparr>CurPtr := ?p + 1\<rparr>"
  let ?run = "takeWhile identifier_body (drop (Suc ?p) buf)"
  let ?T = "\<lparr>Kind = StringSwitch_keyword (buf ! ?p # ?run), TextStart = ?p, TextLen = Suc (length ?run)\<rparr>"
  let ?L' = "L\<lparr>CurPtr := Suc ?p + length ?run\<rparr>"
  have pre: "0 < CurPtr ?L1" "CurPtr ?L1 \<le> length buf" using lt by simp_all
  have eq: "Lex buf L = Inr (?T, ?L')"
    using Lex_eq [of L buf] lt Lex_Restart_identifier [OF lt c] LexIdentifier_eq [OF pre] c by simp
  have t: "getText buf ?T = buf ! ?p # ?run"
    using lt by (intro getText_span) simp_all
  have m: "CurPtr ?L' < length buf \<longrightarrow> \<not> identifier_body (buf ! CurPtr ?L')"
    using span_maximal [of "Suc ?p" identifier_body buf] by simp
  show ?thesis
    unfolding eq using t m by simp
qed

lemma Lex_punctuator_token:
  assumes lt: "CurPtr L < length buf"
    and c: "is_punctuator (buf ! CurPtr L)"
    and nc: "take 2 (drop (CurPtr L) buf) \<noteq> ''//''"
  shows "\<exists>T L'. Lex buf L = Inr (T, L') \<and> TextStart T = CurPtr L
           \<and> getText buf T = buf ! CurPtr L # takeWhile is_punctuator (drop (CurPtr L + 1) buf)
           \<and> CurPtr L' = TextStart T + TextLen T \<and> Diags L' = Diags L
           \<and> (CurPtr L' < length buf \<longrightarrow> \<not> is_punctuator (buf ! CurPtr L'))
           \<and> Kind T = punctuator_kind (getText buf T)"
proof -
  let ?p = "CurPtr L"
  let ?L1 = "L\<lparr>CurPtr := ?p + 1\<rparr>"
  let ?run = "takeWhile is_punctuator (drop (Suc ?p) buf)"
  let ?T = "\<lparr>Kind = punctuator_kind (buf ! ?p # ?run), TextStart = ?p, TextLen = Suc (length ?run)\<rparr>"
  let ?L' = "L\<lparr>CurPtr := Suc ?p + length ?run\<rparr>"
  have pre: "0 < CurPtr ?L1" "CurPtr ?L1 \<le> length buf" using lt by simp_all
  have c': "buf ! ?p \<in> set PunctuatorCharacters" using c by (simp add: is_punctuator_def)
  have nc': "deref buf (?p + 1) \<noteq> Some (CHR ''/'') \<or> buf ! ?p \<noteq> CHR ''/''"
    using slash_slash_iff [OF lt] nc by blast
  have eq: "Lex buf L = Inr (?T, ?L')"
    using Lex_eq [of L buf] lt Lex_Restart_punctuator [OF lt c' nc']
      LexPunctuationIdentifier_eq [OF pre] by simp
  have t: "getText buf ?T = buf ! ?p # ?run"
    using lt by (intro getText_span) simp_all
  have m: "CurPtr ?L' < length buf \<longrightarrow> \<not> is_punctuator (buf ! CurPtr ?L')"
    using span_maximal [of "Suc ?p" is_punctuator buf] by simp
  show ?thesis
    unfolding eq using t m by simp
qed

lemma set_nul_warnings:
  "set (nul_warnings buf a b) =
     {(p, ''nul character embedded in middle of file'', ''warning'') | p.
        a \<le> p \<and> p < b \<and> buf ! p = CHR 0x00}"
  by (auto simp: nul_warnings_def)

lemma comment_end_props:
  assumes "p \<le> length buf"
  shows "p \<le> comment_end buf p" "comment_end buf p \<le> length buf"
    "\<And>q. p \<le> q \<Longrightarrow> q < comment_end buf p \<Longrightarrow> not_eol (buf ! q)"
    "comment_end buf p < length buf \<Longrightarrow> \<not> not_eol (buf ! comment_end buf p)"
proof -
  show "p \<le> comment_end buf p" by (simp add: comment_end_def)
  show "comment_end buf p \<le> length buf" using assms by (rule comment_end_le)
  show "comment_end buf p < length buf \<Longrightarrow> \<not> not_eol (buf ! comment_end buf p)"
    unfolding comment_end_def by (rule span_maximal)
  show "not_eol (buf ! q)" if "p \<le> q" "q < comment_end buf p" for q
  proof -
    let ?tw = "takeWhile not_eol (drop p buf)"
    have i: "q - p < length ?tw" using that by (simp add: comment_end_def)
    then have "?tw ! (q - p) \<in> set ?tw" by (rule nth_mem)
    then have "not_eol (?tw ! (q - p))" by (auto dest: set_takeWhileD)
    moreover have "?tw ! (q - p) = drop p buf ! (q - p)"
      using i by (rule takeWhile_nth)
    moreover have "q < length buf"
      using that(2) comment_end_le [OF assms] by simp
    ultimately show ?thesis using that(1) by simp
  qed
qed

lemma not_eol_nul: "not_eol (CHR 0x00)"
  by (simp add: not_eol_def)

lemma after_comment_nul_reported:
  assumes lt: "CurPtr L < length buf" and c0: "buf ! CurPtr L = CHR ''/''"
    and inv: "nul_reported buf L"
  shows "nul_reported buf (after_comment buf L)"
proof -
  let ?e = "comment_end buf (CurPtr L + 1)"
  have le1: "CurPtr L + 1 \<le> length buf" using lt by simp
  note ce = comment_end_props [OF le1]
  have sub: "set (Diags L) \<subseteq> set (Diags (after_comment buf L))"
    by (auto simp: after_comment_def Let_def)
  have new: "set (nul_warnings buf (CurPtr L + 1) ?e) \<subseteq> set (Diags (after_comment buf L))"
    using ce(2) by (auto simp: after_comment_def Let_def)
  have cur: "CurPtr (after_comment buf L) \<le> ?e + 1"
    using ce(2) by (auto simp: after_comment_def Let_def)
  show ?thesis
    unfolding nul_reported_def
  proof (intro allI impI)
    fix p
    assume a: "p < CurPtr (after_comment buf L) \<and> p < length buf \<and> buf ! p = CHR 0x00"
    consider "p < CurPtr L" | "p = CurPtr L" | "CurPtr L + 1 \<le> p" "p < ?e" | "p = ?e"
      using a cur by linarith
    then show "(p, ''nul character embedded in middle of file'', ''warning'')
        \<in> set (Diags (after_comment buf L))"
    proof cases
      case 1
      then show ?thesis using inv a sub by (auto simp: nul_reported_def)
    next
      case 2
      then show ?thesis using a c0 by simp
    next
      case 3
      then have "(p, ''nul character embedded in middle of file'', ''warning'')
          \<in> set (nul_warnings buf (CurPtr L + 1) ?e)"
        using a by (simp add: set_nul_warnings)
      then show ?thesis using new by blast
    next
      case 4
      then have "\<not> not_eol (buf ! p)" using ce(4) a by simp
      then show ?thesis using a by (simp add: not_eol_def)
    qed
  qed
qed

lemma Lex_Restart_nul_reported:
  assumes "CurPtr L \<le> length buf"
  shows "nul_reported buf L \<longrightarrow> Lex_Restart buf L = Inr (T, L') \<longrightarrow>
           nul_reported buf L' \<and> (Kind T \<noteq> tok_eof \<longrightarrow> CHR 0x00 \<notin> set (getText buf T))"
  using assms
proof (induction rule: Lex_Restart_induct)
  case (eof L)
  then show ?case
    by (auto simp: Lex_Restart_eof nul_reported_def)
next
  case (whitespace L)
  have "nul_reported buf (L\<lparr>CurPtr := CurPtr L + 1\<rparr>)" if "nul_reported buf L"
    unfolding nul_reported_def
  proof (intro allI impI)
    fix p
    assume a: "p < CurPtr (L\<lparr>CurPtr := CurPtr L + 1\<rparr>) \<and> p < length buf \<and> buf ! p = CHR 0x00"
    then have "p \<noteq> CurPtr L" using whitespace(2) by (auto simp: is_whitespace_def)
    then have "p < CurPtr L" using a by simp
    then show "(p, ''nul character embedded in middle of file'', ''warning'')
        \<in> set (Diags (L\<lparr>CurPtr := CurPtr L + 1\<rparr>))"
      using that a by (simp add: nul_reported_def)
  qed
  then show ?case
    using whitespace(3) Lex_Restart_whitespace [OF whitespace(1,2)] by simp
next
  case (nul L)
  let ?L1 = "Warning (CurPtr L) ''nul character embedded in middle of file'' (L\<lparr>CurPtr := CurPtr L + 1\<rparr>)"
  have "nul_reported buf ?L1" if "nul_reported buf L"
    unfolding nul_reported_def
  proof (intro allI impI)
    fix p
    assume a: "p < CurPtr ?L1 \<and> p < length buf \<and> buf ! p = CHR 0x00"
    then have "p < CurPtr L \<or> p = CurPtr L" by (auto simp: Warning_def)
    then show "(p, ''nul character embedded in middle of file'', ''warning'') \<in> set (Diags ?L1)"
      using that a by (auto simp: nul_reported_def Warning_def)
  qed
  then show ?case
    using nul(3) Lex_Restart_nul [OF nul(1,2)] by simp
next
  case (comment L)
  then show ?case
    using after_comment_nul_reported [OF comment(1,2)] Lex_Restart_comment_eq [OF comment(1,2,3)]
    by simp
next
  case (token L)
  show ?case
  proof (intro impI)
    assume inv: "nul_reported buf L" and r: "Lex_Restart buf L = Inr (T, L')"
    from Lex_Restart_token [OF token] r have
      t: "TextStart T = CurPtr L" "CurPtr L' = CurPtr L + TextLen T" "CurPtr L' \<le> length buf"
         "set (Diags L) \<subseteq> set (Diags L')" "CHR 0x00 \<notin> set (getText buf T)"
      by auto
    have "nul_reported buf L'"
      unfolding nul_reported_def
    proof (intro allI impI)
      fix p
      assume a: "p < CurPtr L' \<and> p < length buf \<and> buf ! p = CHR 0x00"
      have "\<not> CurPtr L \<le> p"
      proof
        assume ge: "CurPtr L \<le> p"
        have gi: "getText buf T = take (TextLen T) (drop (CurPtr L) buf)"
          using t(1,2,3) by (simp add: getText_inside)
        have len: "length (getText buf T) = TextLen T"
          using t(2,3) by (simp add: gi)
        have "p < CurPtr L + TextLen T" using a t(2) by simp
        then have i: "p - CurPtr L < TextLen T" using ge by arith
        from i have "getText buf T ! (p - CurPtr L) = drop (CurPtr L) buf ! (p - CurPtr L)"
          by (simp add: gi)
        also have "\<dots> = buf ! p" using ge a by simp
        finally have "getText buf T ! (p - CurPtr L) = buf ! p" .
        moreover have "p - CurPtr L < length (getText buf T)"
          using i len by simp
        ultimately have "buf ! p \<in> set (getText buf T)" by (metis nth_mem)
        then show False using a t(5) by simp
      qed
      then show "(p, ''nul character embedded in middle of file'', ''warning'') \<in> set (Diags L')"
        using inv a t(4) by (auto simp: nul_reported_def)
    qed
    then show "nul_reported buf L' \<and> (Kind T \<noteq> tok_eof \<longrightarrow> CHR 0x00 \<notin> set (getText buf T))"
      using t(5) by simp
  qed
qed

lemma LexAll_nul_reported:
  assumes "LexAll n buf L = Some (Ts, L')" "CurPtr L \<le> length buf" "nul_reported buf L"
  shows "nul_reported buf L'
         \<and> (\<forall>T\<in>set Ts. Kind T \<noteq> tok_eof \<longrightarrow> CHR 0x00 \<notin> set (getText buf T))"
  using assms
proof (induction n arbitrary: L Ts)
  case 0
  then show ?case by simp
next
  case (Suc n)
  from Lex_result [OF Suc.prems(2)] obtain T L1 where
    lx: "Lex buf L = Inr (T, L1)" and r: "Lex_result buf (CurPtr L) T L1" by blast
  have nr: "nul_reported buf L1 \<and> (Kind T \<noteq> tok_eof \<longrightarrow> CHR 0x00 \<notin> set (getText buf T))"
    using Lex_Restart_nul_reported [OF Suc.prems(2)] lx Lex_eq [OF Suc.prems(2)] Suc.prems(3)
    by simp
  show ?case
  proof (cases "Kind T = tok_eof")
    case True
    then have "Ts = [T]" "L' = L1" using lx Suc.prems(1) by simp_all
    then show ?thesis using nr by simp
  next
    case False
    then have b: "CurPtr L1 \<le> length buf"
      using r by (auto simp: Lex_result_def)
    from Suc.prems(1) lx False obtain Ts' where
      t: "LexAll n buf L1 = Some (Ts', L')" "Ts = T # Ts'"
      by (auto split: option.splits)
    show ?thesis
      using Suc.IH [OF t(1) b] nr t(2) by simp
  qed
qed

lemma after_comment_Diags:
  "\<exists>ws. Diags (after_comment buf L) = Diags L @ ws \<and> (\<forall>d\<in>set ws. snd (snd d) = ''warning'')"
proof (cases "comment_end buf (CurPtr L + 1) < length buf")
  case True
  then have "Diags (after_comment buf L)
      = Diags L @ nul_warnings buf (CurPtr L + 1) (comment_end buf (CurPtr L + 1))"
    by (simp add: after_comment_def Let_def)
  moreover have "\<forall>d\<in>set (nul_warnings buf (CurPtr L + 1) (comment_end buf (CurPtr L + 1))).
      snd (snd d) = ''warning''"
    by (auto simp: nul_warnings_def)
  ultimately show ?thesis by blast
next
  case False
  let ?ws = "nul_warnings buf (CurPtr L + 1) (length buf)
       @ [(length buf - 1, ''no newline at end of // comment'', ''warning'')]"
  from False have "Diags (after_comment buf L) = Diags L @ ?ws"
    by (simp add: after_comment_def Let_def)
  moreover have "\<forall>d\<in>set ?ws. snd (snd d) = ''warning''"
    by (auto simp: nul_warnings_def)
  ultimately show ?thesis by blast
qed

lemma Lex_diags_prepend:
  assumes "Lex_diags buf L1 T L'" "Diags L1 = Diags L @ ws" "\<forall>d\<in>set ws. snd (snd d) = ''warning''"
  shows "Lex_diags buf L T L'"
proof -
  from assms(1) obtain ws1 where
    w: "Diags L' = Diags L1 @ ws1
            @ (if Kind T = tok_unknown
               then [(TextStart T, ''invalid character in source file'', ''error'')] else [])"
       "\<forall>d\<in>set ws1. snd (snd d) = ''warning''"
    and r: "Kind T = tok_unknown \<longrightarrow> TextLen T = 1"
       "TextStart T < length buf \<longrightarrow> (Kind T = tok_unknown) = is_invalid (buf ! TextStart T)"
    unfolding Lex_diags_def by blast
  have "Diags L' = Diags L @ (ws @ ws1)
            @ (if Kind T = tok_unknown
               then [(TextStart T, ''invalid character in source file'', ''error'')] else [])"
    using w(1) assms(2) by simp
  moreover have "\<forall>d\<in>set (ws @ ws1). snd (snd d) = ''warning''"
    using w(2) assms(3) by auto
  ultimately show ?thesis
    unfolding Lex_diags_def using r by blast
qed

lemma Lex_Restart_diags:
  assumes "CurPtr L \<le> length buf"
  shows "Lex_Restart buf L = Inr (T, L') \<longrightarrow> Lex_diags buf L T L'"
  using assms
proof (induction rule: Lex_Restart_induct)
  case (eof L)
  show ?case
  proof
    assume "Lex_Restart buf L = Inr (T, L')"
    then have "T = \<lparr>Kind = tok_eof, TextStart = length buf, TextLen = 1\<rparr>"
      "L' = L\<lparr>CurPtr := length buf + 1\<rparr>"
      using Lex_Restart_eof [OF eof] by simp_all
    then show "Lex_diags buf L T L'" by (simp add: Lex_diags_def)
  qed
next
  case (whitespace L)
  show ?case
  proof
    assume "Lex_Restart buf L = Inr (T, L')"
    then have "Lex_diags buf (L\<lparr>CurPtr := CurPtr L + 1\<rparr>) T L'"
      using whitespace(3) Lex_Restart_whitespace [OF whitespace(1,2)] by simp
    then show "Lex_diags buf L T L'"
      by (rule Lex_diags_prepend [where ws = "[]"]) simp_all
  qed
next
  case (nul L)
  let ?L1 = "Warning (CurPtr L) ''nul character embedded in middle of file'' (L\<lparr>CurPtr := CurPtr L + 1\<rparr>)"
  show ?case
  proof
    assume "Lex_Restart buf L = Inr (T, L')"
    then have "Lex_diags buf ?L1 T L'"
      using nul(3) Lex_Restart_nul [OF nul(1,2)] by simp
    then show "Lex_diags buf L T L'"
      by (rule Lex_diags_prepend
            [where ws = "[(CurPtr L, ''nul character embedded in middle of file'', ''warning'')]"])
         (simp_all add: Warning_def)
  qed
next
  case (comment L)
  show ?case
  proof
    assume "Lex_Restart buf L = Inr (T, L')"
    then have d: "Lex_diags buf (after_comment buf L) T L'"
      using comment(4) Lex_Restart_comment_eq [OF comment(1,2,3)] by simp
    from after_comment_Diags [of buf L] obtain ws where
      "Diags (after_comment buf L) = Diags L @ ws" "\<forall>d\<in>set ws. snd (snd d) = ''warning''"
      by blast
    with d show "Lex_diags buf L T L'" by (rule Lex_diags_prepend)
  qed
next
  case (token L)
  show ?case
  proof
    assume r: "Lex_Restart buf L = Inr (T, L')"
    from Lex_Restart_token [OF token] r have
      t: "TextStart T = CurPtr L"
         "Diags L' = Diags L @ (if Kind T = tok_unknown
                 then [(CurPtr L, ''invalid character in source file'', ''error'')] else [])"
         "(Kind T = tok_unknown) = is_invalid (buf ! CurPtr L)"
      by auto
    have lt: "CurPtr L < length buf" using token by (simp add: token_start_def)
    have len: "Kind T = tok_unknown \<longrightarrow> TextLen T = 1"
    proof
      assume "Kind T = tok_unknown"
      then have "is_invalid (buf ! CurPtr L)" using t(3) by simp
      from Lex_Restart_invalid [OF lt this] r show "TextLen T = 1" by auto
    qed
    have "Diags L' = Diags L @ [] @ (if Kind T = tok_unknown
                 then [(TextStart T, ''invalid character in source file'', ''error'')] else [])"
      using t(1,2) by simp
    then show "Lex_diags buf L T L'"
      unfolding Lex_diags_def using len t(1,3) by (intro conjI exI [of _ "[]"]) simp_all
  qed
qed

lemma comment_end_unique:
  assumes "p \<le> e" "e < length buf" "\<not> not_eol (buf ! e)"
    and "\<And>q. p \<le> q \<Longrightarrow> q < e \<Longrightarrow> not_eol (buf ! q)"
  shows "comment_end buf p = e"
proof -
  have le: "p \<le> length buf" using assms(1,2) by simp
  note ce = comment_end_props [OF le]
  have "\<not> comment_end buf p < e"
  proof
    assume l: "comment_end buf p < e"
    then have "\<not> not_eol (buf ! comment_end buf p)" using ce(4) assms(2) by simp
    moreover have "not_eol (buf ! comment_end buf p)" using assms(4) [OF ce(1) l] .
    ultimately show False by simp
  qed
  moreover have "\<not> e < comment_end buf p"
  proof
    assume "e < comment_end buf p"
    then have "not_eol (buf ! e)" using ce(3) [OF assms(1)] by simp
    then show False using assms(3) by simp
  qed
  ultimately show ?thesis by simp
qed

lemma comment_end_none:
  assumes "p \<le> length buf" "\<And>q. p \<le> q \<Longrightarrow> q < length buf \<Longrightarrow> not_eol (buf ! q)"
  shows "comment_end buf p = length buf"
proof -
  note ce = comment_end_props [OF assms(1)]
  have "\<not> comment_end buf p < length buf"
  proof
    assume l: "comment_end buf p < length buf"
    then have "\<not> not_eol (buf ! comment_end buf p)" by (rule ce(4))
    then show False using assms(2) [OF ce(1) l] by simp
  qed
  then show ?thesis using ce(2) by simp
qed

lemma SkipSlashSlashComment_eq:
  assumes lt: "CurPtr L < length buf" and ss: "take 2 (drop (CurPtr L) buf) = ''//''"
  shows "SkipSlashSlashComment buf (L\<lparr>CurPtr := CurPtr L + 1\<rparr>) = Inr (after_comment buf L)"
    and "Lex buf L = Lex buf (after_comment buf L)"
proof -
  let ?L1 = "L\<lparr>CurPtr := CurPtr L + 1\<rparr>"
  from slash_slash_iff [OF lt] ss have
    c0: "buf ! CurPtr L = CHR ''/''" and c1: "deref buf (CurPtr L + 1) = Some (CHR ''/'')"
    by simp_all
  have d0: "deref buf (CurPtr L) = Some (CHR ''/'')"
    using lt c0 by (simp add: deref_inside)
  have le: "CurPtr ?L1 \<le> length buf" using lt by simp
  have "SkipSlashSlashComment buf ?L1 = SkipSlashSlashComment_loop buf ?L1"
    using c1 d0 by (simp add: SkipSlashSlashComment_def)
  also have "\<dots> = Inr (after_comment buf L)"
    using SkipSlashSlashComment_loop_eq [OF le]
    by (simp add: after_comment_def Let_def)
  finally show "SkipSlashSlashComment buf ?L1 = Inr (after_comment buf L)" .
  have "CurPtr (after_comment buf L) \<le> length buf"
    using after_comment_CurPtr(3) [OF lt] .
  then show "Lex buf L = Lex buf (after_comment buf L)"
    using lt Lex_Restart_comment_eq [OF lt c0 c1] by (simp add: Lex_eq)
qed

section \<open>Properties\<close>

subsection \<open>The state after end-of-input\<close>

text \<open>
  C1 (fails on the code): after \<open>Lex\<close> has returned an end-of-input token, a further call
  should return end-of-input again, with the cursor not past the end of the buffer. On the
  empty buffer the first call returns the end-of-input token with a text of length 1 and
  leaves the cursor at offset 1, one past \<open>getBufferEnd\<close>; the second call fails the
  assertion on entry of \<open>Lex\<close> instead of returning a token.
\<close>

theorem Lex_after_eof_not_idempotent:
  "Lex [] Lexer_init =
     Inr (\<lparr>Kind = tok_eof, TextStart = 0, TextLen = 1\<rparr>, \<lparr>CurPtr = 1, Diags = []\<rparr>)
   \<and> getBufferEnd [] < CurPtr \<lparr>CurPtr = 1, Diags = []\<rparr>
   \<and> Lex [] \<lparr>CurPtr = 1, Diags = []\<rparr> = Inl AssertionFailed"
  by code_simp

text \<open>
  The same on every buffer: a call that returns the end-of-input token leaves the cursor
  one past \<open>getBufferEnd\<close>, the next call fails the assertion, and past the assertion the
  switch would read outside the buffer.
\<close>

lemma Lex_eof_leaves_cursor_past_end:
  assumes "CurPtr L \<le> length buf" "Lex buf L = Inr (T, L')" "Kind T = tok_eof"
  shows "TextLen T = 1 \<and> CurPtr L' = getBufferEnd buf + 1
         \<and> Lex buf L' = Inl AssertionFailed \<and> Lex_Restart buf L' = Inl ReadOutOfBounds"
proof -
  from Lex_result [OF assms(1)] assms(2,3) have
    c: "TextLen T = 1" "CurPtr L' = length buf + 1"
    by (auto simp: Lex_result_def)
  then have "deref buf (CurPtr L') = None" by (simp add: deref_def getBufferEnd_def)
  then have "Lex_Restart buf L' = Inl ReadOutOfBounds"
    by (subst Lex_Restart.simps) simp
  then show ?thesis using c by (simp add: Lex_def getBufferEnd_def)
qed

text \<open>
  C2 (fails on the code): the cursor should stay within the buffer, its end included, over
  every sequence of calls, and no character past the end should be read. On the buffer
  \<open>x\<close> the second call returns end-of-input and leaves the cursor at offset 2, past
  \<open>getBufferEnd = 1\<close>; the body of \<open>Lex\<close> entered in that state (as a build without
  assertions does on a third call) reads outside the buffer.
\<close>

theorem Lex_cursor_leaves_buffer:
  "Lex ''x'' Lexer_init =
     Inr (\<lparr>Kind = tok_identifier, TextStart = 0, TextLen = 1\<rparr>, \<lparr>CurPtr = 1, Diags = []\<rparr>)
   \<and> Lex ''x'' \<lparr>CurPtr = 1, Diags = []\<rparr> =
     Inr (\<lparr>Kind = tok_eof, TextStart = 1, TextLen = 1\<rparr>, \<lparr>CurPtr = 2, Diags = []\<rparr>)
   \<and> getBufferEnd ''x'' < CurPtr \<lparr>CurPtr = 2, Diags = []\<rparr>
   \<and> Lex_Restart ''x'' \<lparr>CurPtr = 2, Diags = []\<rparr> = Inl ReadOutOfBounds"
  by code_simp


subsection \<open>Termination of the caller's loop\<close>

text \<open>
  C3: for a buffer of length \<open>N\<close>, calling \<open>Lex\<close> from the initial state until an
  end-of-input token is returned takes at most \<open>N + 1\<close> calls and no call faults; and
  every call made with the cursor inside the buffer returns a token, which, unless it is
  the end-of-input token, has a non-empty text and leaves the cursor strictly further on,
  right after that text and still inside the buffer.
\<close>

theorem Lex_reaches_eof_within_length_plus_one:
  "(\<exists>Ts L'. LexAll (length buf + 1) buf Lexer_init = Some (Ts, L')
       \<and> length Ts \<le> length buf + 1
       \<and> Kind (last Ts) = tok_eof \<and> (\<forall>T\<in>set (butlast Ts). Kind T \<noteq> tok_eof))
   \<and> (\<forall>L. CurPtr L \<le> length buf \<longrightarrow>
         (\<exists>T L1. Lex buf L = Inr (T, L1)
            \<and> (Kind T \<noteq> tok_eof \<longrightarrow>
                 0 < TextLen T \<and> CurPtr L < CurPtr L1
                 \<and> CurPtr L1 = TextStart T + TextLen T \<and> CurPtr L1 \<le> length buf)))"
proof (intro conjI allI impI)
  have "CurPtr Lexer_init \<le> length buf" "length buf - CurPtr Lexer_init < length buf + 1"
    by (simp_all add: Lexer_init_def)
  from LexAll_reaches_eof [OF this] obtain Ts L' where
    r: "LexAll (length buf + 1) buf Lexer_init = Some (Ts, L')"
       "length Ts \<le> Suc (length buf - CurPtr Lexer_init)"
       "Kind (last Ts) = tok_eof" "\<forall>T\<in>set (butlast Ts). Kind T \<noteq> tok_eof"
    by blast
  have "length Ts \<le> length buf + 1" using r(2) by (simp add: Lexer_init_def)
  with r(1,3,4) show "\<exists>Ts L'. LexAll (length buf + 1) buf Lexer_init = Some (Ts, L')
       \<and> length Ts \<le> length buf + 1
       \<and> Kind (last Ts) = tok_eof \<and> (\<forall>T\<in>set (butlast Ts). Kind T \<noteq> tok_eof)"
    by blast
next
  fix L :: Lexer assume "CurPtr L \<le> length buf"
  from Lex_result [OF this] obtain T L1 where
    "Lex buf L = Inr (T, L1)" "Lex_result buf (CurPtr L) T L1" by blast
  then show "\<exists>T L1. Lex buf L = Inr (T, L1)
            \<and> (Kind T \<noteq> tok_eof \<longrightarrow>
                 0 < TextLen T \<and> CurPtr L < CurPtr L1
                 \<and> CurPtr L1 = TextStart T + TextLen T \<and> CurPtr L1 \<le> length buf)"
    by (auto simp: Lex_result_def)
qed

theorem Lex_reaches_eof_within_length_plus_one_witness:
  "CurPtr Lexer_init \<le> length ''a b''
   \<and> (\<exists>Ts L'. LexAll (length ''a b'' + 1) ''a b'' Lexer_init = Some (Ts, L')
         \<and> length Ts \<le> length ''a b'' + 1 \<and> Kind (last Ts) = tok_eof)
   \<and> (\<exists>T L1. Lex ''a b'' Lexer_init = Inr (T, L1) \<and> Kind T \<noteq> tok_eof
         \<and> 0 < TextLen T \<and> CurPtr Lexer_init < CurPtr L1 \<and> CurPtr L1 \<le> length ''a b'')"
proof -
  have e: "Lex ''a b'' Lexer_init =
      Inr (\<lparr>Kind = tok_identifier, TextStart = 0, TextLen = 1\<rparr>, \<lparr>CurPtr = 1, Diags = []\<rparr>)"
    by code_simp
  have h: "CurPtr Lexer_init \<le> length ''a b''" by (simp add: Lexer_init_def)
  from Lex_reaches_eof_within_length_plus_one [of "''a b''"]
  have a: "\<exists>Ts L'. LexAll (length ''a b'' + 1) ''a b'' Lexer_init = Some (Ts, L')
         \<and> length Ts \<le> length ''a b'' + 1 \<and> Kind (last Ts) = tok_eof"
    and b: "\<exists>T L1. Lex ''a b'' Lexer_init = Inr (T, L1)
            \<and> (Kind T \<noteq> tok_eof \<longrightarrow>
                 0 < TextLen T \<and> CurPtr Lexer_init < CurPtr L1
                 \<and> CurPtr L1 = TextStart T + TextLen T \<and> CurPtr L1 \<le> length ''a b'')"
    using h by blast+
  from b e have "\<exists>T L1. Lex ''a b'' Lexer_init = Inr (T, L1) \<and> Kind T \<noteq> tok_eof
         \<and> 0 < TextLen T \<and> CurPtr Lexer_init < CurPtr L1 \<and> CurPtr L1 \<le> length ''a b''"
    by auto
  with h a show ?thesis by blast
qed

subsection \<open>Tokens and skipped text cover the buffer\<close>

text \<open>
  C4: for every buffer, lexing from the initial state until end-of-input succeeds, and
  the texts of the tokens returned before the end-of-input token, each preceded by the
  characters skipped since the previous token, followed by the characters skipped before
  end-of-input, concatenate to the buffer (\<open>reassemble\<close>); each skipped stretch consists
  of whitespace characters, embedded nul characters and \<open>//\<close> comments up to and
  including their line end, a comment without line end only before end-of-input
  (\<open>trivia_between\<close>).
\<close>

theorem token_texts_and_trivia_reconstruct_buffer:
  "\<exists>Ts L'. LexAll (length buf + 1) buf Lexer_init = Some (Ts, L')
      \<and> reassemble buf 0 Ts = buf \<and> trivia_between buf 0 Ts"
proof -
  have h: "CurPtr Lexer_init \<le> length buf" "length buf - CurPtr Lexer_init < length buf + 1"
    by (simp_all add: Lexer_init_def)
  from LexAll_reaches_eof [OF h] obtain Ts L' where
    r: "LexAll (length buf + 1) buf Lexer_init = Some (Ts, L')" by blast
  have "reassemble buf 0 Ts = buf"
    using LexAll_reassemble [OF r h(1)] by (simp add: Lexer_init_def)
  moreover have "trivia_between buf 0 Ts"
    using LexAll_trivia_between [OF r h(1)] by (simp add: Lexer_init_def)
  ultimately show ?thesis using r by blast
qed

theorem token_texts_and_trivia_reconstruct_buffer_witness:
  "LexAll (length ''a //b'' + 1) ''a //b'' Lexer_init =
     Some ([\<lparr>Kind = tok_identifier, TextStart = 0, TextLen = 1\<rparr>,
            \<lparr>Kind = tok_eof, TextStart = 5, TextLen = 1\<rparr>],
           \<lparr>CurPtr = 6, Diags = [(4, ''no newline at end of // comment'', ''warning'')]\<rparr>)
   \<and> reassemble ''a //b'' 0
         [\<lparr>Kind = tok_identifier, TextStart = 0, TextLen = 1\<rparr>,
          \<lparr>Kind = tok_eof, TextStart = 5, TextLen = 1\<rparr>] = ''a //b''
   \<and> trivia_between ''a //b'' 0
         [\<lparr>Kind = tok_identifier, TextStart = 0, TextLen = 1\<rparr>,
          \<lparr>Kind = tok_eof, TextStart = 5, TextLen = 1\<rparr>]"
proof -
  have e: "LexAll (length ''a //b'' + 1) ''a //b'' Lexer_init =
     Some ([\<lparr>Kind = tok_identifier, TextStart = 0, TextLen = 1\<rparr>,
            \<lparr>Kind = tok_eof, TextStart = 5, TextLen = 1\<rparr>],
           \<lparr>CurPtr = 6, Diags = [(4, ''no newline at end of // comment'', ''warning'')]\<rparr>)"
    by code_simp
  from token_texts_and_trivia_reconstruct_buffer [of "''a //b''"] e
  show ?thesis by auto
qed

subsection \<open>Reserved words\<close>

text \<open>
  C5: when the dispatched character is a letter or an underscore, \<open>Lex\<close> returns a token
  whose text is that character followed by the maximal run of letters, digits,
  underscores and \<open>$\<close>; its kind is the reserved-word kind exactly when the text is
  \<open>func\<close>, \<open>var\<close>, \<open>struct\<close>, \<open>typealias\<close>, \<open>oneof\<close> or \<open>__builtin_int32_type\<close>
  (compared character by character, so case-sensitively), and the generic identifier
  kind for every other text.
\<close>

theorem identifier_reserved_word_kind:
  assumes "CurPtr L < length buf"
    and "isalpha (buf ! CurPtr L) \<or> buf ! CurPtr L = CHR ''_''"
  shows "\<exists>T L'. Lex buf L = Inr (T, L') \<and> TextStart T = CurPtr L
           \<and> getText buf T = buf ! CurPtr L # takeWhile identifier_body (drop (CurPtr L + 1) buf)
           \<and> (CurPtr L' < length buf \<longrightarrow> \<not> identifier_body (buf ! CurPtr L'))
           \<and> (Kind T = tok_kw_func) = (getText buf T = ''func'')
           \<and> (Kind T = tok_kw_var) = (getText buf T = ''var'')
           \<and> (Kind T = tok_kw_struct) = (getText buf T = ''struct'')
           \<and> (Kind T = tok_kw_typealias) = (getText buf T = ''typealias'')
           \<and> (Kind T = tok_kw_oneof) = (getText buf T = ''oneof'')
           \<and> (Kind T = tok_kw___builtin_int32_type) = (getText buf T = ''__builtin_int32_type'')
           \<and> (Kind T = tok_identifier) =
               (getText buf T \<notin> set [''func'', ''var'', ''struct'', ''typealias'', ''oneof'',
                                      ''__builtin_int32_type''])"
proof -
  from Lex_identifier_token [OF assms] obtain T L' where
    r: "Lex buf L = Inr (T, L')" "TextStart T = CurPtr L"
       "getText buf T = buf ! CurPtr L # takeWhile identifier_body (drop (CurPtr L + 1) buf)"
       "CurPtr L' < length buf \<longrightarrow> \<not> identifier_body (buf ! CurPtr L')"
       "Kind T = StringSwitch_keyword (getText buf T)"
    by blast
  have k: "(StringSwitch_keyword s = tok_kw_func) = (s = ''func'')"
    "(StringSwitch_keyword s = tok_kw_var) = (s = ''var'')"
    "(StringSwitch_keyword s = tok_kw_struct) = (s = ''struct'')"
    "(StringSwitch_keyword s = tok_kw_typealias) = (s = ''typealias'')"
    "(StringSwitch_keyword s = tok_kw_oneof) = (s = ''oneof'')"
    "(StringSwitch_keyword s = tok_kw___builtin_int32_type) = (s = ''__builtin_int32_type'')"
    "(StringSwitch_keyword s = tok_identifier) =
       (s \<notin> set [''func'', ''var'', ''struct'', ''typealias'', ''oneof'', ''__builtin_int32_type''])"
    for s
    by (auto simp: StringSwitch_keyword_def)
  show ?thesis
    using r(1-4) by (intro exI [of _ T] exI [of _ L']) (simp only: r(5) k simp_thms)
qed

theorem identifier_reserved_word_kind_witness:
  "CurPtr Lexer_init < length ''_func x''
   \<and> (isalpha (''_func x'' ! CurPtr Lexer_init) \<or> ''_func x'' ! CurPtr Lexer_init = CHR ''_'')
   \<and> (\<exists>T L'. Lex ''_func x'' Lexer_init = Inr (T, L') \<and> getText ''_func x'' T = ''_func''
          \<and> Kind T = tok_identifier)"
proof -
  have h: "CurPtr Lexer_init < length ''_func x''"
    "isalpha (''_func x'' ! CurPtr Lexer_init) \<or> ''_func x'' ! CurPtr Lexer_init = CHR ''_''"
    by (simp_all add: Lexer_init_def)
  have t: "''_func x'' ! CurPtr Lexer_init
      # takeWhile identifier_body (drop (CurPtr Lexer_init + 1) ''_func x'') = ''_func''"
    by (simp add: Lexer_init_def identifier_body_def isalnum_def isalpha_def isdigit_def)
  from identifier_reserved_word_kind [OF h] obtain T L' where
    "Lex ''_func x'' Lexer_init = Inr (T, L')"
    "getText ''_func x'' T = ''_func x'' ! CurPtr Lexer_init
      # takeWhile identifier_body (drop (CurPtr Lexer_init + 1) ''_func x'')"
    "(Kind T = tok_identifier) =
       (getText ''_func x'' T \<notin> set [''func'', ''var'', ''struct'', ''typealias'', ''oneof'',
                                      ''__builtin_int32_type''])"
    by blast
  then have "Lex ''_func x'' Lexer_init = Inr (T, L') \<and> getText ''_func x'' T = ''_func''
          \<and> Kind T = tok_identifier"
    by (simp only: t) simp
  with h show ?thesis by blast
qed

lemma reserved_word_examples:
  "map (\<lambda>s. map_sum id (Kind \<circ> fst) (Lex s Lexer_init))
     [''func'', ''var'', ''struct'', ''typealias'', ''oneof'', ''__builtin_int32_type'',
      ''funct'', ''Var'', ''_func'']
   = map Inr [tok_kw_func, tok_kw_var, tok_kw_struct, tok_kw_typealias, tok_kw_oneof,
              tok_kw___builtin_int32_type, tok_identifier, tok_identifier, tok_identifier]"
  by code_simp

subsection \<open>Operator runs\<close>

text \<open>
  C6: when the dispatched character is one of the operator characters
  \<open>/ = - + * % < > ! & | ^\<close> and does not start a \<open>//\<close> comment, \<open>Lex\<close> returns one token
  whose text is the maximal run of operator characters from there; its kind is the
  assignment kind exactly when the text is \<open>=\<close>, the arrow kind exactly when the text is
  \<open>->\<close>, and the identifier kind, which serves as the operator-identifier kind, for every
  other run.
\<close>

theorem punctuator_run_kind:
  assumes "CurPtr L < length buf"
    and "is_punctuator (buf ! CurPtr L)"
    and "take 2 (drop (CurPtr L) buf) \<noteq> ''//''"
  shows "\<exists>T L'. Lex buf L = Inr (T, L') \<and> TextStart T = CurPtr L
           \<and> getText buf T = buf ! CurPtr L # takeWhile is_punctuator (drop (CurPtr L + 1) buf)
           \<and> (CurPtr L' < length buf \<longrightarrow> \<not> is_punctuator (buf ! CurPtr L'))
           \<and> (Kind T = tok_equal) = (getText buf T = ''='')
           \<and> (Kind T = tok_arrow) = (getText buf T = ''->'')
           \<and> (Kind T = tok_identifier) = (getText buf T \<noteq> ''='' \<and> getText buf T \<noteq> ''->'')"
proof -
  from Lex_punctuator_token [OF assms] obtain T L' where
    r: "Lex buf L = Inr (T, L')" "TextStart T = CurPtr L"
       "getText buf T = buf ! CurPtr L # takeWhile is_punctuator (drop (CurPtr L + 1) buf)"
       "CurPtr L' < length buf \<longrightarrow> \<not> is_punctuator (buf ! CurPtr L')"
       "Kind T = punctuator_kind (getText buf T)"
    by blast
  have k: "(punctuator_kind s = tok_equal) = (s = ''='')"
    "(punctuator_kind s = tok_arrow) = (s = ''->'')"
    "(punctuator_kind s = tok_identifier) = (s \<noteq> ''='' \<and> s \<noteq> ''->'')" for s
    by (auto simp: punctuator_kind_def)
  show ?thesis
    using r(1-4) by (intro exI [of _ T] exI [of _ L']) (simp only: r(5) k simp_thms)
qed

theorem punctuator_run_kind_witness:
  "CurPtr Lexer_init < length ''== x'' \<and> is_punctuator (''== x'' ! CurPtr Lexer_init)
   \<and> take 2 (drop (CurPtr Lexer_init) ''== x'') \<noteq> ''//''
   \<and> (\<exists>T L'. Lex ''== x'' Lexer_init = Inr (T, L') \<and> getText ''== x'' T = ''==''
          \<and> Kind T = tok_identifier)"
proof -
  have h: "CurPtr Lexer_init < length ''== x''" "is_punctuator (''== x'' ! CurPtr Lexer_init)"
    "take 2 (drop (CurPtr Lexer_init) ''== x'') \<noteq> ''//''"
    by (simp_all add: Lexer_init_def is_punctuator_def PunctuatorCharacters_def)
  have t: "''== x'' ! CurPtr Lexer_init
      # takeWhile is_punctuator (drop (CurPtr Lexer_init + 1) ''== x'') = ''==''"
    by (simp add: Lexer_init_def is_punctuator_def PunctuatorCharacters_def)
  from punctuator_run_kind [OF h] obtain T L' where
    "Lex ''== x'' Lexer_init = Inr (T, L')"
    "getText ''== x'' T = ''== x'' ! CurPtr Lexer_init
      # takeWhile is_punctuator (drop (CurPtr Lexer_init + 1) ''== x'')"
    "(Kind T = tok_identifier) = (getText ''== x'' T \<noteq> ''='' \<and> getText ''== x'' T \<noteq> ''->'')"
    by blast
  then have "Lex ''== x'' Lexer_init = Inr (T, L') \<and> getText ''== x'' T = ''==''
          \<and> Kind T = tok_identifier"
    by (simp only: t) simp
  with h show ?thesis by blast
qed

lemma punctuator_examples:
  "map (\<lambda>s. map_sum id (\<lambda>r. (Kind (fst r), TextLen (fst r))) (Lex s Lexer_init))
     [''='', ''->'', ''=='', ''+='', ''<<'', ''/'', ''/ /'']
   = map Inr [(tok_equal, 1), (tok_arrow, 2), (tok_identifier, 2), (tok_identifier, 2),
              (tok_identifier, 2), (tok_identifier, 1), (tok_identifier, 1)]"
  by code_simp

text \<open>
  C10: an operator run other than \<open>=\<close> and \<open>->\<close> gets the same kind tag as an
  identifier that is not a reserved word: both are \<open>tok::identifier\<close>.
\<close>

theorem operator_run_kind_is_identifier_kind:
  assumes "CurPtr L1 < length buf1" and "is_punctuator (buf1 ! CurPtr L1)"
    and "take 2 (drop (CurPtr L1) buf1) \<noteq> ''//''"
    and "buf1 ! CurPtr L1 # takeWhile is_punctuator (drop (CurPtr L1 + 1) buf1)
           \<notin> set [''='', ''->'']"
    and "CurPtr L2 < length buf2"
    and "isalpha (buf2 ! CurPtr L2) \<or> buf2 ! CurPtr L2 = CHR ''_''"
    and "buf2 ! CurPtr L2 # takeWhile identifier_body (drop (CurPtr L2 + 1) buf2)
           \<notin> set [''func'', ''var'', ''struct'', ''typealias'', ''oneof'',
                    ''__builtin_int32_type'']"
  shows "\<exists>T1 L1' T2 L2'. Lex buf1 L1 = Inr (T1, L1') \<and> Lex buf2 L2 = Inr (T2, L2')
           \<and> Kind T1 = Kind T2 \<and> Kind T1 = tok_identifier"
proof -
  from Lex_punctuator_token [OF assms(1-3)] obtain T1 L1' where
    r1: "Lex buf1 L1 = Inr (T1, L1')"
        "getText buf1 T1 = buf1 ! CurPtr L1 # takeWhile is_punctuator (drop (CurPtr L1 + 1) buf1)"
        "Kind T1 = punctuator_kind (getText buf1 T1)"
    by blast
  from Lex_identifier_token [OF assms(5,6)] obtain T2 L2' where
    r2: "Lex buf2 L2 = Inr (T2, L2')"
        "getText buf2 T2 = buf2 ! CurPtr L2 # takeWhile identifier_body (drop (CurPtr L2 + 1) buf2)"
        "Kind T2 = StringSwitch_keyword (getText buf2 T2)"
    by blast
  have "Kind T1 = tok_identifier"
    using assms(4) r1(2,3) by (simp add: punctuator_kind_def)
  moreover have "Kind T2 = tok_identifier"
    using assms(7) r2(2,3) by (simp add: StringSwitch_keyword_def)
  ultimately show ?thesis using r1(1) r2(1) by simp
qed

theorem operator_run_kind_is_identifier_kind_witness:
  "Lex ''=='' Lexer_init =
     Inr (\<lparr>Kind = tok_identifier, TextStart = 0, TextLen = 2\<rparr>, \<lparr>CurPtr = 2, Diags = []\<rparr>)
   \<and> Lex ''abc'' Lexer_init =
     Inr (\<lparr>Kind = tok_identifier, TextStart = 0, TextLen = 3\<rparr>, \<lparr>CurPtr = 3, Diags = []\<rparr>)
   \<and> (\<exists>T1 L1' T2 L2'. Lex ''=='' Lexer_init = Inr (T1, L1') \<and> Lex ''abc'' Lexer_init = Inr (T2, L2')
          \<and> Kind T1 = Kind T2 \<and> Kind T1 = tok_identifier)"
proof -
  have e: "Lex ''=='' Lexer_init =
     Inr (\<lparr>Kind = tok_identifier, TextStart = 0, TextLen = 2\<rparr>, \<lparr>CurPtr = 2, Diags = []\<rparr>)"
    "Lex ''abc'' Lexer_init =
     Inr (\<lparr>Kind = tok_identifier, TextStart = 0, TextLen = 3\<rparr>, \<lparr>CurPtr = 3, Diags = []\<rparr>)"
    by code_simp+
  have h1: "CurPtr Lexer_init < length ''==''" "is_punctuator (''=='' ! CurPtr Lexer_init)"
    "take 2 (drop (CurPtr Lexer_init) ''=='') \<noteq> ''//''"
    "''=='' ! CurPtr Lexer_init # takeWhile is_punctuator (drop (CurPtr Lexer_init + 1) ''=='')
       \<notin> set [''='', ''->'']"
    by (simp_all add: Lexer_init_def is_punctuator_def PunctuatorCharacters_def)
  have h2: "CurPtr Lexer_init < length ''abc''"
    "isalpha (''abc'' ! CurPtr Lexer_init) \<or> ''abc'' ! CurPtr Lexer_init = CHR ''_''"
    "''abc'' ! CurPtr Lexer_init # takeWhile identifier_body (drop (CurPtr Lexer_init + 1) ''abc'')
       \<notin> set [''func'', ''var'', ''struct'', ''typealias'', ''oneof'', ''__builtin_int32_type'']"
    by (simp_all add: Lexer_init_def identifier_body_def isalnum_def isalpha_def isdigit_def)
  from operator_run_kind_is_identifier_kind [OF h1 h2] e show ?thesis by blast
qed

subsection \<open>Invalid characters\<close>

text \<open>
  C7: a character that no case label of the dispatch switch matches (not whitespace, not
  nul, not one of \<open>( ) { } [ ] . , ; :\<close>, not an operator character, not a letter,
  underscore, \<open>$\<close> or digit) makes \<open>Lex\<close> return an unknown-kind token of length 1 at
  that character and report one error there; besides that error the call reports at most
  warnings (for text it skipped first), and calling \<open>Lex\<close> on from the state it leaves
  reaches end-of-input. The first part is the call with the cursor at the character, the
  second any call whose token starts at such a character.
\<close>

theorem invalid_character_unknown_token:
  "(CurPtr L < length buf \<and> is_invalid (buf ! CurPtr L) \<longrightarrow>
      Lex buf L =
        Inr (\<lparr>Kind = tok_unknown, TextStart = CurPtr L, TextLen = 1\<rparr>,
             L\<lparr>CurPtr := CurPtr L + 1,
               Diags := Diags L @ [(CurPtr L, ''invalid character in source file'', ''error'')]\<rparr>))
   \<and> (CurPtr L \<le> length buf \<and> Lex buf L = Inr (T, L') \<and> TextStart T < length buf
        \<and> is_invalid (buf ! TextStart T) \<longrightarrow>
      Kind T = tok_unknown \<and> TextLen T = 1 \<and> CurPtr L' = TextStart T + 1
      \<and> (\<exists>ws. Diags L' = Diags L @ ws
                  @ [(TextStart T, ''invalid character in source file'', ''error'')]
               \<and> (\<forall>d\<in>set ws. snd (snd d) = ''warning''))
      \<and> (\<exists>Ts L''. LexAll (length buf - TextStart T) buf L' = Some (Ts, L'')
               \<and> Kind (last Ts) = tok_eof))"
proof (rule conjI; rule impI)
  assume a: "CurPtr L < length buf \<and> is_invalid (buf ! CurPtr L)"
  then have "Lex buf L = Lex_Restart buf L" by (simp add: Lex_eq)
  also have "\<dots> = Inr (\<lparr>Kind = tok_unknown, TextStart = CurPtr L, TextLen = 1\<rparr>,
          Error (CurPtr L) ''invalid character in source file'' (L\<lparr>CurPtr := CurPtr L + 1\<rparr>))"
    using a by (intro Lex_Restart_invalid) simp_all
  finally show "Lex buf L =
        Inr (\<lparr>Kind = tok_unknown, TextStart = CurPtr L, TextLen = 1\<rparr>,
             L\<lparr>CurPtr := CurPtr L + 1,
               Diags := Diags L @ [(CurPtr L, ''invalid character in source file'', ''error'')]\<rparr>)"
    by (simp add: Error_def)
next
  assume a: "CurPtr L \<le> length buf \<and> Lex buf L = Inr (T, L') \<and> TextStart T < length buf
        \<and> is_invalid (buf ! TextStart T)"
  then have le: "CurPtr L \<le> length buf" and r0: "Lex buf L = Inr (T, L')"
    and ts: "TextStart T < length buf" and inv: "is_invalid (buf ! TextStart T)"
    by simp_all
  have r: "Lex_Restart buf L = Inr (T, L')"
    using r0 Lex_eq [OF le] by simp
  from Lex_Restart_diags [OF le] r have d: "Lex_diags buf L T L'" by simp
  then have k: "Kind T = tok_unknown" and len: "TextLen T = 1"
    using ts inv by (simp_all add: Lex_diags_def)
  from Lex_Restart_result [OF le] r have res: "Lex_result buf (CurPtr L) T L'" by simp
  then have c: "CurPtr L' = TextStart T + 1" using len by (simp add: Lex_result_def)
  from d k have w: "\<exists>ws. Diags L' = Diags L @ ws
                  @ [(TextStart T, ''invalid character in source file'', ''error'')]
               \<and> (\<forall>d\<in>set ws. snd (snd d) = ''warning'')"
    by (simp add: Lex_diags_def)
  have "CurPtr L' \<le> length buf" "length buf - CurPtr L' < length buf - TextStart T"
    using c ts by simp_all
  from LexAll_reaches_eof [OF this] have
    "\<exists>Ts L''. LexAll (length buf - TextStart T) buf L' = Some (Ts, L'') \<and> Kind (last Ts) = tok_eof"
    by blast
  with k len c w show "Kind T = tok_unknown \<and> TextLen T = 1 \<and> CurPtr L' = TextStart T + 1
      \<and> (\<exists>ws. Diags L' = Diags L @ ws
                  @ [(TextStart T, ''invalid character in source file'', ''error'')]
               \<and> (\<forall>d\<in>set ws. snd (snd d) = ''warning''))
      \<and> (\<exists>Ts L''. LexAll (length buf - TextStart T) buf L' = Some (Ts, L'')
               \<and> Kind (last Ts) = tok_eof)"
    by blast
qed

theorem invalid_character_unknown_token_witness:
  "CurPtr Lexer_init \<le> length '' @''
   \<and> Lex '' @'' Lexer_init =
       Inr (\<lparr>Kind = tok_unknown, TextStart = 1, TextLen = 1\<rparr>,
            \<lparr>CurPtr = 2, Diags = [(1, ''invalid character in source file'', ''error'')]\<rparr>)
   \<and> is_invalid ('' @'' ! 1)
   \<and> (\<exists>Ts L''. LexAll (length '' @'' - 1) '' @''
                  \<lparr>CurPtr = 2, Diags = [(1, ''invalid character in source file'', ''error'')]\<rparr>
                = Some (Ts, L'') \<and> Kind (last Ts) = tok_eof)"
proof -
  let ?T = "\<lparr>Kind = tok_unknown, TextStart = 1, TextLen = 1\<rparr>"
  let ?L' = "\<lparr>CurPtr = 2, Diags = [(1, ''invalid character in source file'', ''error'')]\<rparr>"
  have e: "Lex '' @'' Lexer_init = Inr (?T, ?L')"
    by code_simp
  have h: "CurPtr Lexer_init \<le> length '' @''" "TextStart ?T < length '' @''"
    "is_invalid ('' @'' ! TextStart ?T)"
    by (simp_all add: Lexer_init_def is_invalid_def is_whitespace_def PunctuatorCharacters_def
          isalpha_def isdigit_def)
  from invalid_character_unknown_token [of Lexer_init "'' @''" ?T ?L'] h e
  have "\<exists>Ts L''. LexAll (length '' @'' - TextStart ?T) '' @'' ?L' = Some (Ts, L'')
          \<and> Kind (last Ts) = tok_eof"
    by blast
  then show ?thesis using h e by simp
qed

subsection \<open>Embedded nul characters\<close>

text \<open>
  C8: a nul character before the end of the buffer is reported with a warning and lexing
  goes on.
  At the dispatch switch (state \<open>L\<close>, cursor on the nul) the code continues from
  \<open>Restart\<close> one character on with the warning recorded, so the call returns a token that
  starts after the nul: no token is formed for it.
  Inside a comment (state \<open>M\<close>, cursor on the first \<open>/\<close> of a \<open>//\<close> marker, a nul at \<open>p\<close>
  with no line end between the marker and \<open>p\<close>) the nul does not end the comment:
  \<open>SkipSlashSlashComment\<close>, entered as \<open>Lex\<close> enters it, leaves the cursor after the first
  newline or carriage return that follows the nul, or at the end of the buffer when none
  follows, with the warning for \<open>p\<close> recorded; \<open>Lex\<close> at the marker returns what \<open>Lex\<close> returns
  from there, a token that starts at or after that cursor.
  Over a whole run from the initial state to end-of-input every nul before the end of the
  buffer has its warning, and no token other than the end-of-input token (whose text is
  the terminator) has a nul in its text.
\<close>

theorem embedded_nul_skipped_with_warning:
  "(CurPtr L < length buf \<and> buf ! CurPtr L = CHR 0x00 \<longrightarrow>
      Lex_Restart buf L =
        Lex_Restart buf (Warning (CurPtr L) ''nul character embedded in middle of file''
                           (L\<lparr>CurPtr := CurPtr L + 1\<rparr>))
      \<and> (\<exists>T L'. Lex buf L = Inr (T, L') \<and> CurPtr L < TextStart T
             \<and> (CurPtr L, ''nul character embedded in middle of file'', ''warning'')
                 \<in> set (Diags L')))
   \<and> (CurPtr M < length buf \<and> take 2 (drop (CurPtr M) buf) = ''//''
        \<and> CurPtr M < p \<and> p < length buf \<and> buf ! p = CHR 0x00
        \<and> (\<forall>q. CurPtr M \<le> q \<and> q < p \<longrightarrow> not_eol (buf ! q)) \<longrightarrow>
      (\<exists>L2. SkipSlashSlashComment buf (M\<lparr>CurPtr := CurPtr M + 1\<rparr>) = Inr L2
         \<and> p < CurPtr L2
         \<and> (\<forall>e. p \<le> e \<and> e < length buf \<and> \<not> not_eol (buf ! e)
                 \<and> (\<forall>q. p \<le> q \<and> q < e \<longrightarrow> not_eol (buf ! q)) \<longrightarrow>
               CurPtr L2 = e + 1)
         \<and> ((\<forall>q. p \<le> q \<and> q < length buf \<longrightarrow> not_eol (buf ! q)) \<longrightarrow>
               CurPtr L2 = length buf)
         \<and> (p, ''nul character embedded in middle of file'', ''warning'') \<in> set (Diags L2)
         \<and> Lex buf M = Lex buf L2
         \<and> (\<exists>T L'. Lex buf M = Inr (T, L') \<and> CurPtr L2 \<le> TextStart T
                \<and> (p, ''nul character embedded in middle of file'', ''warning'')
                    \<in> set (Diags L'))))
   \<and> (\<exists>Ts L'. LexAll (length buf + 1) buf Lexer_init = Some (Ts, L')
         \<and> (\<forall>p. p < length buf \<and> buf ! p = CHR 0x00 \<longrightarrow>
                (p, ''nul character embedded in middle of file'', ''warning'') \<in> set (Diags L'))
         \<and> (\<forall>T\<in>set Ts. Kind T \<noteq> tok_eof \<longrightarrow> CHR 0x00 \<notin> set (getText buf T)))"
proof (intro conjI)
  show "CurPtr L < length buf \<and> buf ! CurPtr L = CHR 0x00 \<longrightarrow>
      Lex_Restart buf L =
        Lex_Restart buf (Warning (CurPtr L) ''nul character embedded in middle of file''
                           (L\<lparr>CurPtr := CurPtr L + 1\<rparr>))
      \<and> (\<exists>T L'. Lex buf L = Inr (T, L') \<and> CurPtr L < TextStart T
             \<and> (CurPtr L, ''nul character embedded in middle of file'', ''warning'')
                 \<in> set (Diags L'))"
  proof (rule impI)
    let ?w = "(CurPtr L, ''nul character embedded in middle of file'', ''warning'')"
    let ?L1 = "Warning (CurPtr L) ''nul character embedded in middle of file''
                 (L\<lparr>CurPtr := CurPtr L + 1\<rparr>)"
    assume a: "CurPtr L < length buf \<and> buf ! CurPtr L = CHR 0x00"
    then have lt: "CurPtr L < length buf" and z: "buf ! CurPtr L = CHR 0x00" by simp_all
    have c1: "CurPtr ?L1 = CurPtr L + 1" and d1: "?w \<in> set (Diags ?L1)"
      by (simp_all add: Warning_def)
    have le1: "CurPtr ?L1 \<le> length buf" using lt c1 by simp
    have dispatch: "Lex_Restart buf L = Lex_Restart buf ?L1"
      using lt z by (rule Lex_Restart_nul)
    from Lex_Restart_result [OF le1] obtain T L' where
      r: "Lex_Restart buf ?L1 = Inr (T, L')" "Lex_result buf (CurPtr ?L1) T L'" by blast
    from Lex_Restart_diags [OF le1] r(1) have "Lex_diags buf ?L1 T L'" by simp
    then have "set (Diags ?L1) \<subseteq> set (Diags L')" by (auto simp: Lex_diags_def)
    then have "?w \<in> set (Diags L')" using d1 by blast
    moreover have "Lex buf L = Inr (T, L')"
      using lt dispatch r(1) by (simp add: Lex_eq)
    moreover have "CurPtr L < TextStart T"
      using r(2) c1 by (simp add: Lex_result_def)
    ultimately have "\<exists>T L'. Lex buf L = Inr (T, L') \<and> CurPtr L < TextStart T
        \<and> ?w \<in> set (Diags L')"
      by blast
    with dispatch show "Lex_Restart buf L = Lex_Restart buf ?L1
      \<and> (\<exists>T L'. Lex buf L = Inr (T, L') \<and> CurPtr L < TextStart T \<and> ?w \<in> set (Diags L'))"
      by blast
  qed
next
  show "CurPtr M < length buf \<and> take 2 (drop (CurPtr M) buf) = ''//''
        \<and> CurPtr M < p \<and> p < length buf \<and> buf ! p = CHR 0x00
        \<and> (\<forall>q. CurPtr M \<le> q \<and> q < p \<longrightarrow> not_eol (buf ! q)) \<longrightarrow>
      (\<exists>L2. SkipSlashSlashComment buf (M\<lparr>CurPtr := CurPtr M + 1\<rparr>) = Inr L2
         \<and> p < CurPtr L2
         \<and> (\<forall>e. p \<le> e \<and> e < length buf \<and> \<not> not_eol (buf ! e)
                 \<and> (\<forall>q. p \<le> q \<and> q < e \<longrightarrow> not_eol (buf ! q)) \<longrightarrow>
               CurPtr L2 = e + 1)
         \<and> ((\<forall>q. p \<le> q \<and> q < length buf \<longrightarrow> not_eol (buf ! q)) \<longrightarrow>
               CurPtr L2 = length buf)
         \<and> (p, ''nul character embedded in middle of file'', ''warning'') \<in> set (Diags L2)
         \<and> Lex buf M = Lex buf L2
         \<and> (\<exists>T L'. Lex buf M = Inr (T, L') \<and> CurPtr L2 \<le> TextStart T
                \<and> (p, ''nul character embedded in middle of file'', ''warning'')
                    \<in> set (Diags L')))"
  proof (rule impI)
    let ?w = "(p, ''nul character embedded in middle of file'', ''warning'')"
    let ?L2 = "after_comment buf M"
    let ?ce = "comment_end buf (CurPtr M + 1)"
    assume a: "CurPtr M < length buf \<and> take 2 (drop (CurPtr M) buf) = ''//''
        \<and> CurPtr M < p \<and> p < length buf \<and> buf ! p = CHR 0x00
        \<and> (\<forall>q. CurPtr M \<le> q \<and> q < p \<longrightarrow> not_eol (buf ! q))"
    then have lt: "CurPtr M < length buf" and ss: "take 2 (drop (CurPtr M) buf) = ''//''"
      and mp: "CurPtr M < p" and pl: "p < length buf" and z: "buf ! p = CHR 0x00"
      and before: "\<And>q. CurPtr M \<le> q \<Longrightarrow> q < p \<Longrightarrow> not_eol (buf ! q)"
      by simp_all
    note sk = SkipSlashSlashComment_eq [OF lt ss]
    have le1: "CurPtr M + 1 \<le> length buf" using lt by simp
    note ce = comment_end_props [OF le1]
    have upto: "not_eol (buf ! q)" if "CurPtr M \<le> q" "q \<le> p" for q
      using that before [of q] z by (cases "q = p") (simp_all add: not_eol_def)
    have pce: "p < ?ce"
    proof (rule ccontr)
      assume "\<not> p < ?ce"
      then have l: "?ce \<le> p" by simp
      then have "?ce < length buf" using pl by simp
      then have "\<not> not_eol (buf ! ?ce)" by (rule ce(4))
      moreover have "not_eol (buf ! ?ce)" using upto [of ?ce] ce(1) l by simp
      ultimately show False by simp
    qed
    have cur: "p < CurPtr ?L2"
      using pce pl by (simp add: after_comment_def Let_def)
    have "?w \<in> set (nul_warnings buf (CurPtr M + 1) ?ce)"
      using mp pce z by (simp add: set_nul_warnings)
    moreover have "set (nul_warnings buf (CurPtr M + 1) ?ce) \<subseteq> set (Diags ?L2)"
      using ce(2) by (auto simp: after_comment_def Let_def)
    ultimately have w2: "?w \<in> set (Diags ?L2)" by blast
    have terminated: "CurPtr ?L2 = e + 1"
      if e: "p \<le> e \<and> e < length buf \<and> \<not> not_eol (buf ! e)
             \<and> (\<forall>q. p \<le> q \<and> q < e \<longrightarrow> not_eol (buf ! q))" for e
    proof -
      have "not_eol (buf ! q)" if "CurPtr M + 1 \<le> q" "q < e" for q
        using that e upto [of q] by (cases "q \<le> p") simp_all
      moreover have "CurPtr M + 1 \<le> e" using mp e by simp
      ultimately have "?ce = e"
        using e by (intro comment_end_unique) simp_all
      then show ?thesis using e by (simp add: after_comment_def Let_def)
    qed
    have unterminated: "CurPtr ?L2 = length buf"
      if n: "\<forall>q. p \<le> q \<and> q < length buf \<longrightarrow> not_eol (buf ! q)"
    proof -
      have "not_eol (buf ! q)" if "CurPtr M + 1 \<le> q" "q < length buf" for q
        using that n upto [of q] by (cases "q \<le> p") simp_all
      then have "?ce = length buf"
        using le1 by (intro comment_end_none) simp_all
      then show ?thesis by (simp add: after_comment_def Let_def)
    qed
    have le2: "CurPtr ?L2 \<le> length buf" using after_comment_CurPtr(3) [OF lt] .
    from Lex_Restart_result [OF le2] obtain T L' where
      r: "Lex_Restart buf ?L2 = Inr (T, L')" "Lex_result buf (CurPtr ?L2) T L'" by blast
    from Lex_Restart_diags [OF le2] r(1) have "Lex_diags buf ?L2 T L'" by simp
    then have "set (Diags ?L2) \<subseteq> set (Diags L')" by (auto simp: Lex_diags_def)
    then have "?w \<in> set (Diags L')" using w2 by blast
    moreover have "Lex buf M = Inr (T, L')"
      using sk(2) r(1) le2 by (simp add: Lex_eq)
    moreover have "CurPtr ?L2 \<le> TextStart T"
      using r(2) by (simp add: Lex_result_def)
    ultimately have tok: "\<exists>T L'. Lex buf M = Inr (T, L') \<and> CurPtr ?L2 \<le> TextStart T
        \<and> ?w \<in> set (Diags L')"
      by blast
    show "\<exists>L2. SkipSlashSlashComment buf (M\<lparr>CurPtr := CurPtr M + 1\<rparr>) = Inr L2
         \<and> p < CurPtr L2
         \<and> (\<forall>e. p \<le> e \<and> e < length buf \<and> \<not> not_eol (buf ! e)
                 \<and> (\<forall>q. p \<le> q \<and> q < e \<longrightarrow> not_eol (buf ! q)) \<longrightarrow>
               CurPtr L2 = e + 1)
         \<and> ((\<forall>q. p \<le> q \<and> q < length buf \<longrightarrow> not_eol (buf ! q)) \<longrightarrow>
               CurPtr L2 = length buf)
         \<and> ?w \<in> set (Diags L2)
         \<and> Lex buf M = Lex buf L2
         \<and> (\<exists>T L'. Lex buf M = Inr (T, L') \<and> CurPtr L2 \<le> TextStart T
                \<and> ?w \<in> set (Diags L'))"
      using sk cur terminated unterminated w2 tok by (intro exI [of _ ?L2]) blast
  qed
next
  have h: "CurPtr Lexer_init \<le> length buf" "length buf - CurPtr Lexer_init < length buf + 1"
    by (simp_all add: Lexer_init_def)
  from LexAll_reaches_eof [OF h] obtain Ts L' where
    r: "LexAll (length buf + 1) buf Lexer_init = Some (Ts, L')" "CurPtr L' = length buf + 1"
    by blast
  have "nul_reported buf Lexer_init" by (simp add: nul_reported_def Lexer_init_def)
  from LexAll_nul_reported [OF r(1) h(1) this] have
    n: "nul_reported buf L'"
       "\<forall>T\<in>set Ts. Kind T \<noteq> tok_eof \<longrightarrow> CHR 0x00 \<notin> set (getText buf T)" by simp_all
  have "\<forall>p. p < length buf \<and> buf ! p = CHR 0x00 \<longrightarrow>
      (p, ''nul character embedded in middle of file'', ''warning'') \<in> set (Diags L')"
    using n(1) r(2) by (simp add: nul_reported_def)
  with r(1) n(2) show "\<exists>Ts L'. LexAll (length buf + 1) buf Lexer_init = Some (Ts, L')
         \<and> (\<forall>p. p < length buf \<and> buf ! p = CHR 0x00 \<longrightarrow>
                (p, ''nul character embedded in middle of file'', ''warning'') \<in> set (Diags L'))
         \<and> (\<forall>T\<in>set Ts. Kind T \<noteq> tok_eof \<longrightarrow> CHR 0x00 \<notin> set (getText buf T))"
    by blast
qed

theorem embedded_nul_skipped_with_warning_witness:
  "Lex (''//a'' @ [CHR 0x00] @ ''b'' @ [CHR 0x0A] @ ''c'') Lexer_init =
       Inr (\<lparr>Kind = tok_identifier, TextStart = 6, TextLen = 1\<rparr>,
            \<lparr>CurPtr = 7, Diags = [(3, ''nul character embedded in middle of file'', ''warning'')]\<rparr>)
   \<and> CurPtr Lexer_init < length (''//a'' @ [CHR 0x00] @ ''b'' @ [CHR 0x0A] @ ''c'')
   \<and> take 2 (drop (CurPtr Lexer_init) (''//a'' @ [CHR 0x00] @ ''b'' @ [CHR 0x0A] @ ''c'')) = ''//''
   \<and> (''//a'' @ [CHR 0x00] @ ''b'' @ [CHR 0x0A] @ ''c'') ! 3 = CHR 0x00
   \<and> \<not> not_eol ((''//a'' @ [CHR 0x00] @ ''b'' @ [CHR 0x0A] @ ''c'') ! 5)
   \<and> (\<exists>L2. SkipSlashSlashComment (''//a'' @ [CHR 0x00] @ ''b'' @ [CHR 0x0A] @ ''c'')
                 (Lexer_init\<lparr>CurPtr := CurPtr Lexer_init + 1\<rparr>) = Inr L2
          \<and> CurPtr L2 = 6
          \<and> (3, ''nul character embedded in middle of file'', ''warning'') \<in> set (Diags L2)
          \<and> Lex (''//a'' @ [CHR 0x00] @ ''b'' @ [CHR 0x0A] @ ''c'') Lexer_init
              = Lex (''//a'' @ [CHR 0x00] @ ''b'' @ [CHR 0x0A] @ ''c'') L2)
   \<and> CurPtr \<lparr>CurPtr = 1, Diags = []\<rparr> < length (''a'' @ [CHR 0x00] @ ''b'')
   \<and> (''a'' @ [CHR 0x00] @ ''b'') ! CurPtr \<lparr>CurPtr = 1, Diags = []\<rparr> = CHR 0x00
   \<and> Lex (''a'' @ [CHR 0x00] @ ''b'') \<lparr>CurPtr = 1, Diags = []\<rparr> =
       Inr (\<lparr>Kind = tok_identifier, TextStart = 2, TextLen = 1\<rparr>,
            \<lparr>CurPtr = 3, Diags = [(1, ''nul character embedded in middle of file'', ''warning'')]\<rparr>)
   \<and> (\<exists>T L'. Lex (''a'' @ [CHR 0x00] @ ''b'') \<lparr>CurPtr = 1, Diags = []\<rparr> = Inr (T, L')
         \<and> CurPtr \<lparr>CurPtr = 1, Diags = []\<rparr> < TextStart T
         \<and> (CurPtr \<lparr>CurPtr = 1, Diags = []\<rparr>,
             ''nul character embedded in middle of file'', ''warning'') \<in> set (Diags L'))"
proof -
  let ?b2 = "''//a'' @ [CHR 0x00] @ ''b'' @ [CHR 0x0A] @ ''c''"
  let ?b1 = "''a'' @ [CHR 0x00] @ ''b''"
  let ?L = "\<lparr>CurPtr = 1, Diags = []\<rparr>"
  have e2: "Lex ?b2 Lexer_init =
       Inr (\<lparr>Kind = tok_identifier, TextStart = 6, TextLen = 1\<rparr>,
            \<lparr>CurPtr = 7, Diags = [(3, ''nul character embedded in middle of file'', ''warning'')]\<rparr>)"
    by code_simp
  have g2: "CurPtr Lexer_init < length ?b2" "take 2 (drop (CurPtr Lexer_init) ?b2) = ''//''"
    "?b2 ! 3 = CHR 0x00" "\<not> not_eol (?b2 ! 5)"
    by (simp_all add: Lexer_init_def not_eol_def)
  have h2: "CurPtr Lexer_init < length ?b2 \<and> take 2 (drop (CurPtr Lexer_init) ?b2) = ''//''
        \<and> CurPtr Lexer_init < 3 \<and> 3 < length ?b2 \<and> ?b2 ! 3 = CHR 0x00
        \<and> (\<forall>q. CurPtr Lexer_init \<le> q \<and> q < 3 \<longrightarrow> not_eol (?b2 ! q))"
    by (auto simp: Lexer_init_def not_eol_def less_Suc_eq numeral_3_eq_3)
  have f2: "(3::nat) \<le> 5 \<and> 5 < length ?b2 \<and> \<not> not_eol (?b2 ! 5)
        \<and> (\<forall>q. 3 \<le> q \<and> q < 5 \<longrightarrow> not_eol (?b2 ! q))"
  proof -
    have "not_eol (?b2 ! q)" if "3 \<le> q" "q < 5" for q
    proof -
      from that have "q = 3 \<or> q = 4" by arith
      then show ?thesis by (auto simp: not_eol_def)
    qed
    then show ?thesis by (simp add: not_eol_def)
  qed
  from embedded_nul_skipped_with_warning [where buf = ?b2 and M = Lexer_init and p = 3] h2
  obtain L2 where
    s: "SkipSlashSlashComment ?b2 (Lexer_init\<lparr>CurPtr := CurPtr Lexer_init + 1\<rparr>) = Inr L2"
       "\<forall>e. 3 \<le> e \<and> e < length ?b2 \<and> \<not> not_eol (?b2 ! e)
                 \<and> (\<forall>q. 3 \<le> q \<and> q < e \<longrightarrow> not_eol (?b2 ! q)) \<longrightarrow>
               CurPtr L2 = e + 1"
       "(3, ''nul character embedded in middle of file'', ''warning'') \<in> set (Diags L2)"
       "Lex ?b2 Lexer_init = Lex ?b2 L2"
    by blast
  from s(2) f2 have "CurPtr L2 = 5 + 1" by blast
  then have "CurPtr L2 = 6" by simp
  with s(1,3,4) have w2: "\<exists>L2. SkipSlashSlashComment ?b2 (Lexer_init\<lparr>CurPtr := CurPtr Lexer_init + 1\<rparr>) = Inr L2
          \<and> CurPtr L2 = 6
          \<and> (3, ''nul character embedded in middle of file'', ''warning'') \<in> set (Diags L2)
          \<and> Lex ?b2 Lexer_init = Lex ?b2 L2"
    by blast
  have e1: "Lex ?b1 ?L =
       Inr (\<lparr>Kind = tok_identifier, TextStart = 2, TextLen = 1\<rparr>,
            \<lparr>CurPtr = 3, Diags = [(1, ''nul character embedded in middle of file'', ''warning'')]\<rparr>)"
    by code_simp
  have h1: "CurPtr ?L < length ?b1 \<and> ?b1 ! CurPtr ?L = CHR 0x00" by simp
  from embedded_nul_skipped_with_warning [where buf = ?b1 and L = ?L] h1
  have w1: "\<exists>T L'. Lex ?b1 ?L = Inr (T, L') \<and> CurPtr ?L < TextStart T
         \<and> (CurPtr ?L, ''nul character embedded in middle of file'', ''warning'') \<in> set (Diags L')"
    by blast
  from e2 g2 w2 h1 e1 w1 show ?thesis by blast
qed

subsection \<open>Line comments\<close>

text \<open>
  C9: with the cursor on the first \<open>/\<close> of a \<open>//\<close> marker, the comment skipper (entered
  one character on, as \<open>Lex\<close> enters it) returns a state from which \<open>Lex\<close> gives what the
  call at the marker gives: the comment yields no token of its own. If \<open>e\<close> is the first
  newline or carriage return from the marker on, the cursor is left at \<open>e + 1\<close> and only
  warnings for embedded nul characters are reported. If there is none up to the end of
  the buffer, the cursor is left on the end sentinel, the warning
  \<open>no newline at end of // comment\<close> is reported last, and \<open>Lex\<close> from that state returns
  the end-of-input token. In the buffer \<open>// comment\<close>, newline, \<open>foo\<close> the first token
  returned is the identifier \<open>foo\<close>.
\<close>

theorem line_comment_skipped:
  assumes "CurPtr L < length buf" and "take 2 (drop (CurPtr L) buf) = ''//''"
  shows "Lex (''// comment'' @ [CHR 0x0A] @ ''foo'') Lexer_init =
           Inr (\<lparr>Kind = tok_identifier, TextStart = 11, TextLen = 3\<rparr>, \<lparr>CurPtr = 14, Diags = []\<rparr>)
         \<and> getText (''// comment'' @ [CHR 0x0A] @ ''foo'')
              \<lparr>Kind = tok_identifier, TextStart = 11, TextLen = 3\<rparr> = ''foo''
         \<and> (\<exists>L2. SkipSlashSlashComment buf (L\<lparr>CurPtr := CurPtr L + 1\<rparr>) = Inr L2
               \<and> Lex buf L = Lex buf L2
               \<and> (\<forall>e. CurPtr L \<le> e \<and> e < length buf \<and> \<not> not_eol (buf ! e)
                       \<and> (\<forall>q. CurPtr L \<le> q \<and> q < e \<longrightarrow> not_eol (buf ! q)) \<longrightarrow>
                     CurPtr L2 = e + 1
                     \<and> Diags L2 = Diags L @ nul_warnings buf (CurPtr L + 1) e)
               \<and> ((\<forall>q. CurPtr L \<le> q \<and> q < length buf \<longrightarrow> not_eol (buf ! q)) \<longrightarrow>
                     CurPtr L2 = length buf
                     \<and> Diags L2 = Diags L @ nul_warnings buf (CurPtr L + 1) (length buf)
                          @ [(length buf - 1, ''no newline at end of // comment'', ''warning'')]
                     \<and> Lex buf L2 =
                         Inr (\<lparr>Kind = tok_eof, TextStart = length buf, TextLen = 1\<rparr>,
                              L2\<lparr>CurPtr := length buf + 1\<rparr>)))"
proof (intro conjI)
  show "Lex (''// comment'' @ [CHR 0x0A] @ ''foo'') Lexer_init =
           Inr (\<lparr>Kind = tok_identifier, TextStart = 11, TextLen = 3\<rparr>, \<lparr>CurPtr = 14, Diags = []\<rparr>)"
    by code_simp
  show "getText (''// comment'' @ [CHR 0x0A] @ ''foo'')
              \<lparr>Kind = tok_identifier, TextStart = 11, TextLen = 3\<rparr> = ''foo''"
    by (simp add: getText_def)
  let ?L2 = "after_comment buf L"
  note sk = SkipSlashSlashComment_eq [OF assms]
  have le1: "CurPtr L + 1 \<le> length buf" using assms(1) by simp
  from slash_slash_iff [OF assms(1)] assms(2) have
    c0: "buf ! CurPtr L = CHR ''/''" by simp
  have terminated: "CurPtr ?L2 = e + 1 \<and> Diags ?L2 = Diags L @ nul_warnings buf (CurPtr L + 1) e"
    if a: "CurPtr L \<le> e \<and> e < length buf \<and> \<not> not_eol (buf ! e)
           \<and> (\<forall>q. CurPtr L \<le> q \<and> q < e \<longrightarrow> not_eol (buf ! q))" for e
  proof -
    have "e \<noteq> CurPtr L" using a c0 by (auto simp: not_eol_def)
    then have "CurPtr L + 1 \<le> e" using a by simp
    then have "comment_end buf (CurPtr L + 1) = e"
      using a by (intro comment_end_unique) simp_all
    then show ?thesis using a by (simp add: after_comment_def Let_def)
  qed
  have unterminated: "CurPtr ?L2 = length buf
      \<and> Diags ?L2 = Diags L @ nul_warnings buf (CurPtr L + 1) (length buf)
            @ [(length buf - 1, ''no newline at end of // comment'', ''warning'')]
      \<and> Lex buf ?L2 =
            Inr (\<lparr>Kind = tok_eof, TextStart = length buf, TextLen = 1\<rparr>,
                 ?L2\<lparr>CurPtr := length buf + 1\<rparr>)"
    if a: "\<forall>q. CurPtr L \<le> q \<and> q < length buf \<longrightarrow> not_eol (buf ! q)"
  proof -
    have "comment_end buf (CurPtr L + 1) = length buf"
      using le1 a by (intro comment_end_none) simp_all
    then have c: "CurPtr ?L2 = length buf"
      and d: "Diags ?L2 = Diags L @ nul_warnings buf (CurPtr L + 1) (length buf)
            @ [(length buf - 1, ''no newline at end of // comment'', ''warning'')]"
      by (simp_all add: after_comment_def Let_def)
    have "Lex buf ?L2 = Lex_Restart buf ?L2" using c by (simp add: Lex_eq)
    also have "\<dots> = Inr (\<lparr>Kind = tok_eof, TextStart = length buf, TextLen = 1\<rparr>,
                 ?L2\<lparr>CurPtr := length buf + 1\<rparr>)"
      using c by (rule Lex_Restart_eof)
    finally show ?thesis using c d by simp
  qed
  show "\<exists>L2. SkipSlashSlashComment buf (L\<lparr>CurPtr := CurPtr L + 1\<rparr>) = Inr L2
               \<and> Lex buf L = Lex buf L2
               \<and> (\<forall>e. CurPtr L \<le> e \<and> e < length buf \<and> \<not> not_eol (buf ! e)
                       \<and> (\<forall>q. CurPtr L \<le> q \<and> q < e \<longrightarrow> not_eol (buf ! q)) \<longrightarrow>
                     CurPtr L2 = e + 1
                     \<and> Diags L2 = Diags L @ nul_warnings buf (CurPtr L + 1) e)
               \<and> ((\<forall>q. CurPtr L \<le> q \<and> q < length buf \<longrightarrow> not_eol (buf ! q)) \<longrightarrow>
                     CurPtr L2 = length buf
                     \<and> Diags L2 = Diags L @ nul_warnings buf (CurPtr L + 1) (length buf)
                          @ [(length buf - 1, ''no newline at end of // comment'', ''warning'')]
                     \<and> Lex buf L2 =
                         Inr (\<lparr>Kind = tok_eof, TextStart = length buf, TextLen = 1\<rparr>,
                              L2\<lparr>CurPtr := length buf + 1\<rparr>))"
    using sk terminated unterminated by (intro exI [of _ ?L2]) blast
qed

theorem line_comment_skipped_witness:
  "CurPtr Lexer_init < length (''//'' @ [CHR 0x0A] @ ''x'')
   \<and> take 2 (drop (CurPtr Lexer_init) (''//'' @ [CHR 0x0A] @ ''x'')) = ''//''
   \<and> \<not> not_eol ((''//'' @ [CHR 0x0A] @ ''x'') ! 2)
   \<and> (\<exists>L2. SkipSlashSlashComment (''//'' @ [CHR 0x0A] @ ''x'') (Lexer_init\<lparr>CurPtr := CurPtr Lexer_init + 1\<rparr>)
            = Inr L2
         \<and> CurPtr L2 = 3
         \<and> Lex (''//'' @ [CHR 0x0A] @ ''x'') Lexer_init = Lex (''//'' @ [CHR 0x0A] @ ''x'') L2)
   \<and> CurPtr Lexer_init < length ''//a''
   \<and> take 2 (drop (CurPtr Lexer_init) ''//a'') = ''//''
   \<and> (\<exists>L2. SkipSlashSlashComment ''//a'' (Lexer_init\<lparr>CurPtr := CurPtr Lexer_init + 1\<rparr>) = Inr L2
         \<and> CurPtr L2 = 3
         \<and> Diags L2 = [(2, ''no newline at end of // comment'', ''warning'')]
         \<and> Lex ''//a'' L2 =
             Inr (\<lparr>Kind = tok_eof, TextStart = 3, TextLen = 1\<rparr>, L2\<lparr>CurPtr := 4\<rparr>))"
proof -
  let ?b1 = "''//'' @ [CHR 0x0A] @ ''x''"
  have h1: "CurPtr Lexer_init < length ?b1" "take 2 (drop (CurPtr Lexer_init) ?b1) = ''//''"
    by (simp_all add: Lexer_init_def)
  have e1: "CurPtr Lexer_init \<le> 2 \<and> 2 < length ?b1 \<and> \<not> not_eol (?b1 ! 2)
       \<and> (\<forall>q. CurPtr Lexer_init \<le> q \<and> q < 2 \<longrightarrow> not_eol (?b1 ! q))"
    by (auto simp: Lexer_init_def not_eol_def less_Suc_eq numeral_2_eq_2)
  from line_comment_skipped [OF h1] obtain L2 where
    "SkipSlashSlashComment ?b1 (Lexer_init\<lparr>CurPtr := CurPtr Lexer_init + 1\<rparr>) = Inr L2"
    "Lex ?b1 Lexer_init = Lex ?b1 L2"
    "\<forall>e. CurPtr Lexer_init \<le> e \<and> e < length ?b1 \<and> \<not> not_eol (?b1 ! e)
          \<and> (\<forall>q. CurPtr Lexer_init \<le> q \<and> q < e \<longrightarrow> not_eol (?b1 ! q)) \<longrightarrow>
        CurPtr L2 = e + 1 \<and> Diags L2 = Diags Lexer_init @ nul_warnings ?b1 (CurPtr Lexer_init + 1) e"
    by blast
  with e1 have w1: "\<exists>L2. SkipSlashSlashComment ?b1 (Lexer_init\<lparr>CurPtr := CurPtr Lexer_init + 1\<rparr>)
            = Inr L2 \<and> CurPtr L2 = 3 \<and> Lex ?b1 Lexer_init = Lex ?b1 L2"
    by (intro exI [of _ L2]) auto
  have h2: "CurPtr Lexer_init < length ''//a''" "take 2 (drop (CurPtr Lexer_init) ''//a'') = ''//''"
    by (simp_all add: Lexer_init_def)
  have e2: "\<forall>q. CurPtr Lexer_init \<le> q \<and> q < length ''//a'' \<longrightarrow> not_eol (''//a'' ! q)"
    by (auto simp: Lexer_init_def not_eol_def less_Suc_eq)
  have nw: "nul_warnings ''//a'' (CurPtr Lexer_init + 1) (length ''//a'') = []"
    by (simp add: nul_warnings_def Lexer_init_def upt_rec)
  from line_comment_skipped [OF h2] obtain L2 where
    "SkipSlashSlashComment ''//a'' (Lexer_init\<lparr>CurPtr := CurPtr Lexer_init + 1\<rparr>) = Inr L2"
    "(\<forall>q. CurPtr Lexer_init \<le> q \<and> q < length ''//a'' \<longrightarrow> not_eol (''//a'' ! q)) \<longrightarrow>
        CurPtr L2 = length ''//a''
        \<and> Diags L2 = Diags Lexer_init @ nul_warnings ''//a'' (CurPtr Lexer_init + 1) (length ''//a'')
             @ [(length ''//a'' - 1, ''no newline at end of // comment'', ''warning'')]
        \<and> Lex ''//a'' L2 =
             Inr (\<lparr>Kind = tok_eof, TextStart = length ''//a'', TextLen = 1\<rparr>,
                  L2\<lparr>CurPtr := length ''//a'' + 1\<rparr>)"
    by blast
  with e2 nw have w2: "\<exists>L2. SkipSlashSlashComment ''//a'' (Lexer_init\<lparr>CurPtr := CurPtr Lexer_init + 1\<rparr>) = Inr L2
         \<and> CurPtr L2 = 3
         \<and> Diags L2 = [(2, ''no newline at end of // comment'', ''warning'')]
         \<and> Lex ''//a'' L2 =
             Inr (\<lparr>Kind = tok_eof, TextStart = 3, TextLen = 1\<rparr>, L2\<lparr>CurPtr := 4\<rparr>)"
    by (intro exI [of _ L2]) (simp add: Lexer_init_def)
  have "\<not> not_eol (?b1 ! 2)" using e1 by blast
  with h1 h2 w1 w2 show ?thesis by blast
qed

end
